theory Spec2Isabelle
  imports Main
begin

section \<open>Text primitives of the runner\<close>

text \<open>
  The runner \<^verbatim>\<open>run_pipeline.py\<close> works on Python \<^verbatim>\<open>str\<close> values. Text is modelled as
  \<^typ>\<open>string\<close>; every literal of the program that a theorem depends on (markers, phase
  names, status labels, file names) is ASCII. The three non-ASCII glyphs that only occur
  in console messages are written as their UTF-8 bytes.
\<close>

definition NL :: char where
  "NL = CHR 0x0A"

text \<open>
  \<^verbatim>\<open>s.find(sub)\<close>: the lowest index at which \<^verbatim>\<open>sub\<close> occurs in \<^verbatim>\<open>s\<close>, or \<^verbatim>\<open>-1\<close>.
  The empty string occurs at index 0 of every string.
\<close>

fun find_from :: "string \<Rightarrow> string \<Rightarrow> nat \<Rightarrow> int" where
  "find_from [] sub i = (if sub = [] then int i else - 1)"
| "find_from (c # cs) sub i =
     (if take (length sub) (c # cs) = sub then int i else find_from cs sub (Suc i))"

definition find_str :: "string \<Rightarrow> string \<Rightarrow> int" where
  "find_str s sub = find_from s sub 0"

text \<open>
  \<^verbatim>\<open>xs[a:b]\<close> with integer bounds: a negative bound counts from the end, every bound is
  clamped into \<^verbatim>\<open>0..len(xs)\<close>, and the slice is empty when the upper bound does not
  exceed the lower one.
\<close>

definition slice_index :: "nat \<Rightarrow> int \<Rightarrow> nat" where
  "slice_index n i = (if i < 0 then nat (max 0 (int n + i)) else min n (nat i))"

definition slice :: "'a list \<Rightarrow> int \<Rightarrow> int \<Rightarrow> 'a list" where
  "slice xs a b =
     (let lo = slice_index (length xs) a; hi = slice_index (length xs) b
      in take (hi - lo) (drop lo xs))"

text \<open>
  Lines 71-72 of \<^verbatim>\<open>main\<close>:
  \<^verbatim>\<open>full_code[full_code.find(START) : full_code.find(END)]\<close>,
  with the two marker literals as parameters.
\<close>

definition extract_between :: "string \<Rightarrow> string \<Rightarrow> string \<Rightarrow> string" where
  "extract_between fullText startMarker endMarker =
     slice fullText (find_str fullText startMarker) (find_str fullText endMarker)"

definition START_MARKER :: string where
  "START_MARKER = ''class NASAExoplanetScraper:''"

definition END_MARKER :: string where
  "END_MARKER = ''# '' @ replicate 72 (CHR ''='') @ [NL] @ ''# EXOPLANET HUNTER AI - EXPLORATORY''"

definition scraper_section :: "string \<Rightarrow> string" where
  "scraper_section full_code = extract_between full_code START_MARKER END_MARKER"

text \<open>\<open>occurs_at s sub k\<close>: the text \<open>sub\<close> occurs in \<open>s\<close> starting at index \<open>k\<close>.\<close>

definition occurs_at :: "string \<Rightarrow> string \<Rightarrow> nat \<Rightarrow> bool" where
  "occurs_at s sub k = (k + length sub \<le> length s \<and> take (length sub) (drop k s) = sub)"

text \<open>
  The extraction contract in the words of the specification (section 4.1): the start
  marker's first occurrence is located, then the first occurrence of the end marker that
  appears after it; a missing marker is an \<open>ExtractionError\<close>.
\<close>

datatype extraction_error = ExtractionError

fun first_occurrence_from :: "string \<Rightarrow> string \<Rightarrow> nat \<Rightarrow> nat \<Rightarrow> nat option" where
  "first_occurrence_from s sub k 0 = None"
| "first_occurrence_from s sub k (Suc fuel) =
     (if occurs_at s sub k then Some k else first_occurrence_from s sub (Suc k) fuel)"

definition spec_extract :: "string \<Rightarrow> string \<Rightarrow> string \<Rightarrow> extraction_error + string" where
  "spec_extract fullText startMarker endMarker =
     (case first_occurrence_from fullText startMarker 0 (Suc (length fullText)) of
        None \<Rightarrow> Inl ExtractionError
      | Some s \<Rightarrow>
          (case first_occurrence_from fullText endMarker (Suc s) (length fullText - s) of
             None \<Rightarrow> Inl ExtractionError
           | Some e \<Rightarrow> Inr (take (e - s) (drop s fullText))))"


section \<open>The environment: file system, console, clock, interpreter\<close>

text \<open>
  A path names either a directory or a regular file with its content. The file system is
  an association list from paths (relative to the working directory, which is the empty
  path and always exists) to nodes, so that a directory can be listed.
\<close>

datatype node = Dir | File string

record datetime =
  year :: nat
  month :: nat
  day :: nat
  hour :: nat
  minute :: nat
  second :: nat
  microsecond :: nat

typedecl pyobject

text \<open>
  \<open>phase_runs\<close> is a history variable, not program state: the name and body of every
  phase handed to the executor so far.
\<close>

record world =
  fs :: "(string \<times> node) list"
  stdout :: "string list"
  clock :: "nat \<Rightarrow> datetime"
  ticks :: nat
  globals :: "(string \<times> pyobject) list"
  phase_runs :: "(string \<times> string) list"

text \<open>
  An exception in flight. \<open>is_Exception\<close> is \<^verbatim>\<open>isinstance(e, Exception)\<close>: it is false for
  \<^verbatim>\<open>SystemExit\<close>, \<^verbatim>\<open>KeyboardInterrupt\<close> and \<^verbatim>\<open>GeneratorExit\<close>, which derive from
  \<^verbatim>\<open>BaseException\<close> only. \<^verbatim>\<open>traceback.format_exc()\<close> renders the exception being handled;
  its text holds the line \<^verbatim>\<open>Traceback (most recent call last):\<close>, preceded by nothing for
  a plain exception.
\<close>

record raised =
  is_Exception :: bool
  trace_lead :: string
  trace_body :: string

definition format_exc :: "raised \<Rightarrow> string" where
  "format_exc e = trace_lead e @ ''Traceback (most recent call last):'' @ [NL] @ trace_body e"

datatype py_error = OSError string | Uncaught raised

text \<open>
  The result of running a piece of the program: it returns a value, an exception
  propagates out of it, or it never returns (a phase body may hang).
\<close>

datatype 'a result = Returns 'a world | Propagates py_error world | Diverges

datatype outcome = Finished world | Raised raised world | Hangs

text \<open>
  The phase bodies are arbitrary Python text. What running one does to the environment is
  a parameter of the model; the one thing fixed is that the empty program does nothing.
\<close>

type_synonym interpreter = "string \<Rightarrow> world \<Rightarrow> outcome"

definition exec :: "interpreter \<Rightarrow> string \<Rightarrow> world \<Rightarrow> outcome" where
  "exec interp code w =
     (if code = [] then Finished w
      else (case interp code w of
              Finished w' \<Rightarrow> Finished (w'\<lparr>phase_runs := phase_runs w\<rparr>)
            | Raised e w' \<Rightarrow> Raised e (w'\<lparr>phase_runs := phase_runs w\<rparr>)
            | Hangs \<Rightarrow> Hangs))"

text \<open>\<^verbatim>\<open>print(s)\<close> appends one entry to the console; writing to the console never fails.\<close>

definition py_print :: "string \<Rightarrow> world \<Rightarrow> world" where
  "py_print s w = w\<lparr>stdout := stdout w @ [s]\<rparr>"

definition now :: "world \<Rightarrow> datetime \<times> world" where
  "now w = (clock w (ticks w), w\<lparr>ticks := Suc (ticks w)\<rparr>)"

text \<open>\<^verbatim>\<open>d[k] = v\<close> on an insertion-ordered dictionary.\<close>

fun dict_set :: "'k \<Rightarrow> 'v \<Rightarrow> ('k \<times> 'v) list \<Rightarrow> ('k \<times> 'v) list" where
  "dict_set k v [] = [(k, v)]"
| "dict_set k v (p # ps) = (if fst p = k then (k, v) # ps else p # dict_set k v ps)"

definition path_exists :: "world \<Rightarrow> string \<Rightarrow> bool" where
  "path_exists w p = (map_of (fs w) p \<noteq> None)"

definition dir_exists :: "world \<Rightarrow> string \<Rightarrow> bool" where
  "dir_exists w d = (d = [] \<or> map_of (fs w) d = Some Dir)"

definition parent_dir :: "string \<Rightarrow> string" where
  "parent_dir p = rev (drop 1 (dropWhile (\<lambda>c. c \<noteq> CHR ''/'') (rev p)))"

text \<open>\<^verbatim>\<open>Path(base) / rel\<close>: an absolute right operand replaces the left one.\<close>

definition path_join :: "string \<Rightarrow> string \<Rightarrow> string" where
  "path_join base rel = (if take 1 rel = ''/'' then rel else base @ ''/'' @ rel)"

text \<open>The path itself preceded by each of its ancestors, outermost first.\<close>

fun path_prefixes :: "string \<Rightarrow> string \<Rightarrow> string list" where
  "path_prefixes acc [] = [acc]"
| "path_prefixes acc (c # cs) =
     (if c = CHR ''/'' then acc # path_prefixes (acc @ [c]) cs
      else path_prefixes (acc @ [c]) cs)"

text \<open>
  \<^verbatim>\<open>Path(p).mkdir(parents=True, exist_ok=True)\<close>: every missing ancestor and the path
  itself are created; it fails exactly when the path or one of its ancestors exists and is
  not a directory. The subclasses of \<^verbatim>\<open>OSError\<close> are not told apart.
\<close>

fun ensure_dirs :: "string list \<Rightarrow> world \<Rightarrow> unit result" where
  "ensure_dirs [] w = Returns () w"
| "ensure_dirs (p # ps) w =
     (if p = [] then ensure_dirs ps w
      else (case map_of (fs w) p of
              None \<Rightarrow> ensure_dirs ps (w\<lparr>fs := dict_set p Dir (fs w)\<rparr>)
            | Some Dir \<Rightarrow> ensure_dirs ps w
            | Some (File c) \<Rightarrow> Propagates (OSError p) w))"

definition mkdir_parents :: "string \<Rightarrow> world \<Rightarrow> unit result" where
  "mkdir_parents p w = ensure_dirs (path_prefixes [] p) w"

text \<open>\<^verbatim>\<open>open(p, 'r')\<close> followed by \<^verbatim>\<open>read()\<close>.\<close>

definition read_text :: "string \<Rightarrow> world \<Rightarrow> string result" where
  "read_text p w =
     (case map_of (fs w) p of
        Some (File c) \<Rightarrow> Returns c w
      | _ \<Rightarrow> Propagates (OSError p) w)"

text \<open>
  \<^verbatim>\<open>open(p, 'w')\<close> creates or truncates the file; it fails when the path is a directory or
  its parent directory does not exist. \<^verbatim>\<open>f.write(s)\<close> appends to the file opened at \<open>p\<close>.
\<close>

definition open_w :: "string \<Rightarrow> world \<Rightarrow> unit result" where
  "open_w p w =
     (if map_of (fs w) p = Some Dir \<or> \<not> dir_exists w (parent_dir p)
      then Propagates (OSError p) w
      else Returns () (w\<lparr>fs := dict_set p (File []) (fs w)\<rparr>))"

definition fwrite :: "string \<Rightarrow> string \<Rightarrow> world \<Rightarrow> world" where
  "fwrite p s w =
     (case map_of (fs w) p of
        Some (File c) \<Rightarrow> w\<lparr>fs := dict_set p (File (c @ s)) (fs w)\<rparr>
      | _ \<Rightarrow> w)"


section \<open>Text formatting\<close>

text \<open>\<^verbatim>\<open>str.lower\<close> on ASCII letters, and \<^verbatim>\<open>str.replace\<close> of one character by another.\<close>

definition lower_char :: "char \<Rightarrow> char" where
  "lower_char c =
     (case map_of (zip ''ABCDEFGHIJKLMNOPQRSTUVWXYZ'' ''abcdefghijklmnopqrstuvwxyz'') c of
        Some l \<Rightarrow> l
      | None \<Rightarrow> c)"

definition lower :: "string \<Rightarrow> string" where
  "lower s = map lower_char s"

definition replace :: "char \<Rightarrow> char \<Rightarrow> string \<Rightarrow> string" where
  "replace old new s = map (\<lambda>c. if c = old then new else c) s"

text \<open>Decimal numerals and \<^verbatim>\<open>%0wd\<close> padding, as \<^verbatim>\<open>datetime.isoformat\<close> uses them.\<close>

definition digit :: "nat \<Rightarrow> char" where
  "digit n = ''0123456789'' ! n"

fun dec :: "nat \<Rightarrow> string" where
  "dec n = (if n < 10 then [digit n] else dec (n div 10) @ [digit (n mod 10)])"

declare dec.simps [simp del]

definition zfill :: "nat \<Rightarrow> string \<Rightarrow> string" where
  "zfill w s = replicate (w - length s) (CHR ''0'') @ s"

definition isoformat :: "datetime \<Rightarrow> string" where
  "isoformat d =
     zfill 4 (dec (year d)) @ ''-'' @ zfill 2 (dec (month d)) @ ''-'' @ zfill 2 (dec (day d))
     @ ''T'' @ zfill 2 (dec (hour d)) @ '':'' @ zfill 2 (dec (minute d)) @ '':''
     @ zfill 2 (dec (second d))
     @ (if microsecond d = 0 then [] else ''.'' @ zfill 6 (dec (microsecond d)))"


text \<open>
  The ISO-8601 extended format \<^verbatim>\<open>YYYY-MM-DDTHH:MM:SS\<close> with an optional fraction of six
  digits.
\<close>

definition all_digits :: "string \<Rightarrow> bool" where
  "all_digits s = list_all (\<lambda>c. c \<in> set ''0123456789'') s"


text \<open>
  \<^verbatim>\<open>json.dump(results, f, indent=2)\<close> for the run record: a string and a dictionary of
  strings. Quotes, backslashes and control characters are escaped.
\<close>

record results =
  timestamp :: string
  phases :: "(string \<times> string) list"

definition hex_digit :: "nat \<Rightarrow> char" where
  "hex_digit n = ''0123456789abcdef'' ! n"

definition json_escape :: "char \<Rightarrow> string" where
  "json_escape c =
     (if c = CHR 0x22 then [CHR 0x5C, CHR 0x22]
      else if c = CHR 0x5C then [CHR 0x5C, CHR 0x5C]
      else if c = CHR 0x0A then [CHR 0x5C, CHR ''n'']
      else if c = CHR 0x0D then [CHR 0x5C, CHR ''r'']
      else if c = CHR 0x09 then [CHR 0x5C, CHR ''t'']
      else if c = CHR 0x08 then [CHR 0x5C, CHR ''b'']
      else if c = CHR 0x0C then [CHR 0x5C, CHR ''f'']
      else if (of_char c :: nat) < 32
        then [CHR 0x5C, CHR ''u'', CHR ''0'', CHR ''0'',
              hex_digit ((of_char c :: nat) div 16), hex_digit ((of_char c :: nat) mod 16)]
      else [c])"

definition json_string :: "string \<Rightarrow> string" where
  "json_string s = [CHR 0x22] @ concat (map json_escape s) @ [CHR 0x22]"

fun join :: "string \<Rightarrow> string list \<Rightarrow> string" where
  "join sep [] = []"
| "join sep [x] = x"
| "join sep (x # y # ys) = x @ sep @ join sep (y # ys)"

definition json_dict :: "(string \<times> string) list \<Rightarrow> string" where
  "json_dict d =
     (if d = [] then ''{}''
      else ''{'' @ [NL]
           @ join ('','' @ [NL]) (map (\<lambda>(k, v). ''    '' @ json_string k @ '': '' @ json_string v) d)
           @ [NL] @ ''  }'')"

definition json_dump :: "results \<Rightarrow> string" where
  "json_dump r =
     ''{'' @ [NL] @ ''  '' @ json_string ''timestamp'' @ '': '' @ json_string (timestamp r) @ '','' @ [NL]
     @ ''  '' @ json_string ''phases'' @ '': '' @ json_dict (phases r) @ [NL] @ ''}''"

section \<open>The runner\<close>

definition CHECK_MARK :: string where
  "CHECK_MARK = [CHR 0xE2, CHR 0x9C, CHR 0x93]"

definition BALLOT_X :: string where
  "BALLOT_X = [CHR 0xE2, CHR 0x9C, CHR 0x97]"

definition WARNING_SIGN :: string where
  "WARNING_SIGN = [CHR 0xE2, CHR 0x9A, CHR 0xA0, CHR 0xEF, CHR 0xB8, CHR 0x8F]"

definition directories :: "string list" where
  "directories =
     [''data/raw'', ''data/processed'', ''data/augmented'', ''data/synthetic'', ''data/tess'',
      ''models'', ''models/tess'',
      ''reports/figures'', ''reports/figures/augmentation'', ''reports/figures/tess'',
      ''reports/validation'', ''reports/tess_analysis'',
      ''logs'']"

fun mkdir_all :: "string list \<Rightarrow> world \<Rightarrow> unit result" where
  "mkdir_all [] w = Returns () w"
| "mkdir_all (dir_path # rest) w =
     (case mkdir_parents dir_path w of
        Returns u w' \<Rightarrow> mkdir_all rest w'
      | Propagates e w' \<Rightarrow> Propagates e w'
      | Diverges \<Rightarrow> Diverges)"

definition setup_environment :: "world \<Rightarrow> unit result" where
  "setup_environment w =
     (case mkdir_all directories w of
        Returns u w' \<Rightarrow> Returns () (py_print (CHECK_MARK @ '' Directory structure created'') w')
      | Propagates e w' \<Rightarrow> Propagates e w'
      | Diverges \<Rightarrow> Diverges)"

definition log_file_of :: "string \<Rightarrow> string" where
  "log_file_of phase_name =
     path_join ''logs'' (replace (CHR '' '') (CHR ''_'') (lower phase_name) @ ''_error.log'')"

text \<open>Lines 30-32 of \<^verbatim>\<open>run_phase\<close>: the banner; the call is entered in the history.\<close>

definition announce :: "string \<Rightarrow> string \<Rightarrow> world \<Rightarrow> world" where
  "announce phase_name code_section w =
     (let w1 = py_print (NL # replicate 80 (CHR ''='')) w;
          w2 = py_print (''RUNNING: '' @ phase_name) w1;
          w3 = py_print (replicate 80 (CHR ''='') @ [NL]) w2
      in w3\<lparr>phase_runs := phase_runs w3 @ [(phase_name, code_section)]\<rparr>)"

definition write_log :: "string \<Rightarrow> raised \<Rightarrow> world \<Rightarrow> unit result" where
  "write_log phase_name e w =
     (let log_file = log_file_of phase_name
      in case open_w log_file w of
           Returns u w1 \<Rightarrow>
             (let w2 = fwrite log_file (''Error in '' @ phase_name @ [NL]) w1;
                  (t, w3) = now w2;
                  w4 = fwrite log_file (''Timestamp: '' @ isoformat t @ [NL, NL]) w3;
                  w5 = fwrite log_file (format_exc e) w4
              in Returns () w5)
         | Propagates err w1 \<Rightarrow> Propagates err w1
         | Diverges \<Rightarrow> Diverges)"

definition run_phase :: "interpreter \<Rightarrow> string \<Rightarrow> string \<Rightarrow> world \<Rightarrow> bool result" where
  "run_phase interp phase_name code_section w =
     (case exec interp code_section (announce phase_name code_section w) of
        Finished w1 \<Rightarrow>
          Returns True
            (py_print ([NL] @ CHECK_MARK @ '' '' @ phase_name @ '' completed successfully'') w1)
      | Raised e w1 \<Rightarrow>
          (if is_Exception e then
             (let w2 = py_print ([NL] @ BALLOT_X @ '' '' @ phase_name @ '' failed with error:'') w1;
                  w3 = py_print (format_exc e) w2
              in case write_log phase_name e w3 of
                   Returns u w4 \<Rightarrow> Returns False w4
                 | Propagates err w4 \<Rightarrow> Propagates err w4
                 | Diverges \<Rightarrow> Diverges)
           else Propagates (Uncaught e) w1)
      | Hangs \<Rightarrow> Diverges)"

text \<open>\<^verbatim>\<open>list(Path(d).glob('*.csv'))\<close>: the entries directly inside \<open>d\<close> whose name ends in \<^verbatim>\<open>.csv\<close>.\<close>

definition ends_with :: "string \<Rightarrow> string \<Rightarrow> bool" where
  "ends_with s suffix =
     (length suffix \<le> length s \<and> drop (length s - length suffix) s = suffix)"

definition glob_csv :: "world \<Rightarrow> string \<Rightarrow> string list" where
  "glob_csv w d =
     (if map_of (fs w) d = Some Dir
      then filter (\<lambda>p. take (Suc (length d)) p = d @ ''/''
                       \<and> CHR ''/'' \<notin> set (drop (Suc (length d)) p)
                       \<and> ends_with (drop (Suc (length d)) p) ''.csv'')
             (remdups (map fst (fs w)))
      else [])"

definition set_phase :: "string \<Rightarrow> string \<Rightarrow> results \<Rightarrow> results" where
  "set_phase k v r = r\<lparr>phases := dict_set k v (phases r)\<rparr>"

text \<open>Lines 53-68 of \<^verbatim>\<open>main\<close>: banner, directories, the empty run record, the source text.\<close>

definition startup :: "world \<Rightarrow> (results \<times> string) result" where
  "startup w =
     (let w1 = py_print (replicate 80 (CHR ''='')) w;
          w2 = py_print ''EXOPLANET DETECTION PIPELINE'' w1;
          w3 = py_print ''NASA Space Apps Challenge 2025'' w2;
          w4 = py_print (replicate 80 (CHR ''='') @ [NL]) w3
      in case setup_environment w4 of
           Returns u w5 \<Rightarrow>
             (let (t, w6) = now w5;
                  results = \<lparr>timestamp = isoformat t, phases = []\<rparr>
              in case read_text ''copy_of_ada.py'' w6 of
                   Returns full_code w7 \<Rightarrow> Returns (results, full_code) w7
                 | Propagates e w7 \<Rightarrow> Propagates e w7
                 | Diverges \<Rightarrow> Diverges)
         | Propagates e w5 \<Rightarrow> Propagates e w5
         | Diverges \<Rightarrow> Diverges)"

text \<open>Lines 74-78: the outcome of the first phase is entered in the run record.\<close>

definition record_scraping :: "bool \<Rightarrow> results \<Rightarrow> world \<Rightarrow> results \<times> world" where
  "record_scraping ok results w =
     (if ok then (set_phase ''data_scraping'' ''success'' results, w)
      else (set_phase ''data_scraping'' ''failed'' results,
            py_print ([NL] @ WARNING_SIGN @ '' Data scraping failed, but continuing with pipeline...'') w))"

text \<open>Lines 81-82: the warning about missing raw data.\<close>

definition check_raw_data :: "world \<Rightarrow> world" where
  "check_raw_data w =
     (if \<not> path_exists w ''data/raw'' \<or> glob_csv w ''data/raw'' = []
      then py_print ([NL] @ WARNING_SIGN @ '' Warning: No raw data found. Some phases may fail.'') w
      else w)"

text \<open>Lines 85-91: the gate of the second phase.\<close>

definition eda_gate :: "results \<Rightarrow> world \<Rightarrow> results \<times> world" where
  "eda_gate results w =
     (if path_exists w ''data/raw/kepler_cumulative.csv''
      then (set_phase ''eda'' ''skipped - requires manual review'' results,
            py_print ([NL] @ CHECK_MARK @ '' Raw data found, proceeding with EDA'') w)
      else (set_phase ''eda'' ''skipped - no data'' results,
            py_print ([NL] @ WARNING_SIGN @ '' Skipping EDA - no data available'') w))"

text \<open>Lines 104-107: one line per entry of the run record.\<close>

fun print_summary :: "(string \<times> string) list \<Rightarrow> world \<Rightarrow> world" where
  "print_summary [] w = w"
| "print_summary ((phase, status) # rest) w =
     print_summary rest
       (py_print (''  '' @ (if status = ''success'' then CHECK_MARK else WARNING_SIGN)
                  @ '' '' @ phase @ '': '' @ status) w)"

text \<open>Lines 93-107: the summary file and the closing report.\<close>

definition save_and_report :: "results \<Rightarrow> world \<Rightarrow> unit result" where
  "save_and_report results w =
     (case open_w ''pipeline_results.json'' w of
        Returns u w1 \<Rightarrow>
          (let w2 = fwrite ''pipeline_results.json'' (json_dump results) w1;
               w3 = py_print ([NL] @ replicate 80 (CHR ''='')) w2;
               w4 = py_print ''PIPELINE EXECUTION COMPLETE'' w3;
               w5 = py_print (replicate 80 (CHR ''='')) w4;
               w6 = py_print ([NL] @ ''Results saved to: pipeline_results.json'') w5;
               w7 = py_print ''Logs saved to: logs/'' w6;
               w8 = py_print ([NL] @ ''Phase Summary:'') w7
           in Returns () (print_summary (phases results) w8))
      | Propagates e w1 \<Rightarrow> Propagates e w1
      | Diverges \<Rightarrow> Diverges)"

text \<open>Lines 74-107: everything after the first phase has returned.\<close>

definition finish :: "results \<Rightarrow> bool \<Rightarrow> world \<Rightarrow> unit result" where
  "finish results ok w =
     (let (results1, w1) = record_scraping ok results w;
          w2 = check_raw_data w1;
          (results2, w3) = eda_gate results1 w2
      in save_and_report results2 w3)"

definition main :: "interpreter \<Rightarrow> world \<Rightarrow> unit result" where
  "main interp w =
     (case startup w of
        Returns rc w1 \<Rightarrow>
          (case run_phase interp ''Data Scraping'' (scraper_section (snd rc)) w1 of
             Returns ok w2 \<Rightarrow> finish (fst rc) ok w2
           | Propagates e w2 \<Rightarrow> Propagates e w2
           | Diverges \<Rightarrow> Diverges)
      | Propagates e w1 \<Rightarrow> Propagates e w1
      | Diverges \<Rightarrow> Diverges)"

section \<open>Derived notions and example environments\<close>

text \<open>Every path that \<open>setup_environment\<close> visits: each directory preceded by its ancestors.\<close>

definition setup_paths :: "string list" where
  "setup_paths = concat (map (path_prefixes []) directories)"

text \<open>The four title lines that \<open>main\<close> prints first.\<close>

definition banner :: "world \<Rightarrow> world" where
  "banner w =
     py_print (replicate 80 (CHR ''='') @ [NL])
       (py_print ''NASA Space Apps Challenge 2025''
          (py_print ''EXOPLANET DETECTION PIPELINE''
             (py_print (replicate 80 (CHR ''='')) w)))"

text \<open>The run record as it stands when the summary is saved: the outcome of the
  first phase, then the decision of the gate.\<close>

definition final_record :: "results \<Rightarrow> bool \<Rightarrow> world \<Rightarrow> results" where
  "final_record r ok w =
     set_phase ''eda'' (if path_exists w ''data/raw/kepler_cumulative.csv''
                        then ''skipped - requires manual review'' else ''skipped - no data'')
       (set_phase ''data_scraping'' (if ok then ''success'' else ''failed'') r)"

definition src_no_end :: string where
  "src_no_end = START_MARKER @ [NL] @ ''    pass'' @ [NL]"

definition src_end_first :: string where
  "src_end_first =
     END_MARKER @ [NL] @ START_MARKER @ [NL] @ ''    pass'' @ [NL] @ END_MARKER @ [NL]"

definition src_ordered :: string where
  "src_ordered =
     ''import requests'' @ [NL] @ START_MARKER @ [NL] @ ''    pass'' @ [NL] @ END_MARKER @ [NL]"

definition src_no_markers :: string where
  "src_no_markers = ''import requests'' @ [NL]"

text \<open>Observers of a result, and concrete environments, interpreters and source texts on
  which the theorems below are instantiated.\<close>

definition returns :: "'a result \<Rightarrow> bool" where
  "returns r = (case r of Returns v w \<Rightarrow> True | Propagates e w \<Rightarrow> False | Diverges \<Rightarrow> False)"

definition final_world :: "'a result \<Rightarrow> world option" where
  "final_world r = (case r of Returns v w \<Rightarrow> Some w | Propagates e w \<Rightarrow> Some w | Diverges \<Rightarrow> None)"


definition clock0 :: "nat \<Rightarrow> datetime" where
  "clock0 n = \<lparr>year = 2025, month = 10, day = 4, hour = 9, minute = 30, second = n mod 60,
               microsecond = 250\<rparr>"

definition world_with :: "(string \<times> node) list \<Rightarrow> world" where
  "world_with files =
     \<lparr>fs = files, stdout = [], clock = clock0, ticks = 0, globals = [], phase_runs = []\<rparr>"

definition source_world :: "string \<Rightarrow> world" where
  "source_world src = world_with [(''copy_of_ada.py'', File src)]"

definition interp_ok :: interpreter where
  "interp_ok code w = Finished w"

definition value_error :: raised where
  "value_error = \<lparr>is_Exception = True, trace_lead = [], trace_body = ''ValueError: boom'' @ [NL]\<rparr>"

definition interp_value_error :: interpreter where
  "interp_value_error code w = Raised value_error w"



definition kepler_world :: "string \<Rightarrow> world" where
  "kepler_world content =
     world_with [(''copy_of_ada.py'', File src_ordered),
                 (''data/raw/kepler_cumulative.csv'', File content)]"

section \<open>Searching and slicing\<close>

lemma occurs_at_Nil: "occurs_at [] sub k = (sub = [] \<and> k = 0)"
  by (auto simp: occurs_at_def)

lemma occurs_at_0: "occurs_at s sub 0 = (take (length sub) s = sub)"
proof
  assume "occurs_at s sub 0"
  then show "take (length sub) s = sub" by (simp add: occurs_at_def)
next
  assume h: "take (length sub) s = sub"
  have "length (take (length sub) s) = min (length sub) (length s)" by simp
  with h have "length sub \<le> length s" by simp
  with h show "occurs_at s sub 0" by (simp add: occurs_at_def)
qed

lemma occurs_at_Suc: "occurs_at (c # cs) sub (Suc k) = occurs_at cs sub k"
  by (simp add: occurs_at_def)

lemma find_from_spec:
  "(find_from s sub i = - 1 \<and> (\<forall>k. \<not> occurs_at s sub k)) \<or>
   (\<exists>k. find_from s sub i = int (i + k) \<and> occurs_at s sub k \<and> (\<forall>j<k. \<not> occurs_at s sub j))"
proof (induction s arbitrary: i)
  case Nil
  show ?case
  proof (cases "sub = []")
    case True
    then have "find_from [] sub i = int (i + 0) \<and> occurs_at [] sub 0 \<and> (\<forall>j<0. \<not> occurs_at [] sub j)"
      by (simp add: occurs_at_Nil)
    then show ?thesis by blast
  next
    case False
    then show ?thesis by (simp add: occurs_at_Nil)
  qed
next
  case (Cons c cs)
  show ?case
  proof (cases "take (length sub) (c # cs) = sub")
    case True
    then have "find_from (c # cs) sub i = int (i + 0) \<and> occurs_at (c # cs) sub 0
        \<and> (\<forall>j<0. \<not> occurs_at (c # cs) sub j)"
      by (simp add: occurs_at_0)
    then show ?thesis by blast
  next
    case False
    then have no0: "\<not> occurs_at (c # cs) sub 0" by (simp add: occurs_at_0)
    from False have step: "find_from (c # cs) sub i = find_from cs sub (Suc i)" by simp
    from Cons.IH[of "Suc i"] show ?thesis
    proof
      assume a: "find_from cs sub (Suc i) = - 1 \<and> (\<forall>k. \<not> occurs_at cs sub k)"
      have "\<not> occurs_at (c # cs) sub k" for k
        using a no0 by (cases k) (simp_all add: occurs_at_Suc)
      with a step show ?thesis by simp
    next
      assume "\<exists>k. find_from cs sub (Suc i) = int (Suc i + k) \<and> occurs_at cs sub k
         \<and> (\<forall>j<k. \<not> occurs_at cs sub j)"
      then obtain k where k: "find_from cs sub (Suc i) = int (Suc i + k)" "occurs_at cs sub k"
        "\<forall>j<k. \<not> occurs_at cs sub j" by blast
      have "\<not> occurs_at (c # cs) sub j" if "j < Suc k" for j
        using that k(3) no0 by (cases j) (simp_all add: occurs_at_Suc)
      with k step have "find_from (c # cs) sub i = int (i + Suc k) \<and> occurs_at (c # cs) sub (Suc k)
          \<and> (\<forall>j<Suc k. \<not> occurs_at (c # cs) sub j)"
        by (simp add: occurs_at_Suc)
      then show ?thesis by blast
    qed
  qed
qed

lemma find_str_absent:
  "find_str s sub < 0 \<Longrightarrow> find_str s sub = - 1 \<and> (\<forall>k. \<not> occurs_at s sub k)"
  using find_from_spec[of s sub 0] by (auto simp: find_str_def)

lemma find_str_present:
  "0 \<le> find_str s sub \<Longrightarrow>
     occurs_at s sub (nat (find_str s sub)) \<and> (\<forall>j<nat (find_str s sub). \<not> occurs_at s sub j)"
  using find_from_spec[of s sub 0] by (auto simp: find_str_def)

lemma find_str_negative_iff: "(find_str s sub < 0) = (\<forall>k. \<not> occurs_at s sub k)"
  using find_str_absent[of s sub] find_str_present[of s sub] by fastforce

lemma find_str_empty: "find_str s [] = 0"
  by (cases s) (simp_all add: find_str_def)

lemma find_str_bound:
  assumes "0 \<le> find_str s sub"
  shows "nat (find_str s sub) + length sub \<le> length s"
  using find_str_present[OF assms] by (simp add: occurs_at_def)

lemma slice_absent_start:
  assumes "find_str s sm < 0"
  shows "extract_between s sm em = []"
proof -
  from assms have a: "find_str s sm = - 1" by (simp add: find_str_absent)
  have lo: "slice_index (length s) (- 1) = length s - 1"
    by (simp add: slice_index_def)
  have "slice_index (length s) (find_str s em) \<le> length s - 1"
  proof (cases "find_str s em < 0")
    case True
    then have "find_str s em = - 1" by (simp add: find_str_absent)
    then show ?thesis by (simp add: lo)
  next
    case False
    then have p: "0 \<le> find_str s em" by simp
    show ?thesis
    proof (cases "em = []")
      case True
      then show ?thesis by (simp add: find_str_empty slice_index_def)
    next
      case False
      with find_str_bound[OF p] have "nat (find_str s em) < length s" by (cases em) simp_all
      with p show ?thesis by (simp add: slice_index_def)
    qed
  qed
  then show ?thesis by (simp add: extract_between_def slice_def Let_def a lo)
qed

lemma slice_absent_end:
  assumes "0 \<le> find_str s sm" and "find_str s em < 0"
  shows "extract_between s sm em = butlast (drop (nat (find_str s sm)) s)"
proof -
  from assms(2) have e: "find_str s em = - 1" by (simp add: find_str_absent)
  from find_str_bound[OF assms(1)] have "nat (find_str s sm) \<le> length s" by simp
  with assms(1) have lo: "slice_index (length s) (find_str s sm) = nat (find_str s sm)"
    by (simp add: slice_index_def)
  have hi: "slice_index (length s) (- 1) = length s - 1"
    by (simp add: slice_index_def)
  show ?thesis
    by (simp add: extract_between_def slice_def Let_def e lo hi butlast_conv_take)
qed

lemma slice_misordered:
  assumes "0 \<le> find_str s em" and "find_str s em \<le> find_str s sm"
  shows "extract_between s sm em = []"
proof -
  from assms have s0: "0 \<le> find_str s sm" by simp
  from find_str_bound[OF s0] have "nat (find_str s sm) \<le> length s" by simp
  with s0 have lo: "slice_index (length s) (find_str s sm) = nat (find_str s sm)"
    by (simp add: slice_index_def)
  from find_str_bound[OF assms(1)] have "nat (find_str s em) \<le> length s" by simp
  with assms(1) have hi: "slice_index (length s) (find_str s em) = nat (find_str s em)"
    by (simp add: slice_index_def)
  from assms show ?thesis by (simp add: extract_between_def slice_def Let_def lo hi)
qed

lemma slice_ordered:
  assumes "0 \<le> find_str s sm" and "find_str s sm < find_str s em"
  shows "extract_between s sm em
         = take (nat (find_str s em) - nat (find_str s sm)) (drop (nat (find_str s sm)) s)"
proof -
  from assms have e0: "0 \<le> find_str s em" by simp
  from find_str_bound[OF assms(1)] have "nat (find_str s sm) \<le> length s" by simp
  with assms(1) have lo: "slice_index (length s) (find_str s sm) = nat (find_str s sm)"
    by (simp add: slice_index_def)
  from find_str_bound[OF e0] have "nat (find_str s em) \<le> length s" by simp
  with e0 have hi: "slice_index (length s) (find_str s em) = nat (find_str s em)"
    by (simp add: slice_index_def)
  show ?thesis by (simp add: extract_between_def slice_def Let_def lo hi)
qed

lemma first_occurrence_from_Some:
  "occurs_at s sub e \<Longrightarrow> k \<le> e \<Longrightarrow> e < k + fuel \<Longrightarrow> (\<forall>j. k \<le> j \<and> j < e \<longrightarrow> \<not> occurs_at s sub j)
     \<Longrightarrow> first_occurrence_from s sub k fuel = Some e"
proof (induction fuel arbitrary: k)
  case 0
  then show ?case by simp
next
  case (Suc fuel)
  show ?case
  proof (cases "k = e")
    case True
    with Suc.prems show ?thesis by simp
  next
    case False
    with Suc.prems have "\<not> occurs_at s sub k" and "Suc k \<le> e" by auto
    moreover from Suc.prems have "e < Suc k + fuel" by simp
    moreover from Suc.prems have "\<forall>j. Suc k \<le> j \<and> j < e \<longrightarrow> \<not> occurs_at s sub j" by auto
    ultimately show ?thesis using Suc.IH[of "Suc k"] Suc.prems(1) by simp
  qed
qed

lemma spec_extract_ordered:
  assumes "0 \<le> find_str s sm" and "find_str s sm < find_str s em"
  shows "spec_extract s sm em = Inr (extract_between s sm em)"
proof -
  define a where "a = nat (find_str s sm)"
  define b where "b = nat (find_str s em)"
  from assms have e0: "0 \<le> find_str s em" by simp
  from assms have ab: "a < b" by (simp add: a_def b_def)
  note pa = find_str_present[OF assms(1), folded a_def]
  note pb = find_str_present[OF e0, folded b_def]
  from pa have "a \<le> length s" by (simp add: occurs_at_def)
  with pa have fa: "first_occurrence_from s sm 0 (Suc (length s)) = Some a"
    by (intro first_occurrence_from_Some) auto
  from pb have "b \<le> length s" by (simp add: occurs_at_def)
  with pb ab have fb: "first_occurrence_from s em (Suc a) (length s - a) = Some b"
    by (intro first_occurrence_from_Some) auto
  show ?thesis
    by (simp add: spec_extract_def fa fb slice_ordered[OF assms, folded a_def b_def]
          del: first_occurrence_from.simps)
qed

section \<open>Creating the directories\<close>

lemma map_of_dict_set: "map_of (dict_set k v d) = (map_of d)(k \<mapsto> v)"
  by (induction d) auto

lemma ensure_dirs_append:
  "ensure_dirs (xs @ ys) w =
     (case ensure_dirs xs w of
        Returns u w' \<Rightarrow> ensure_dirs ys w'
      | Propagates e w' \<Rightarrow> Propagates e w'
      | Diverges \<Rightarrow> Diverges)"
  by (induction xs arbitrary: w) (simp_all split: option.splits node.splits)

lemma mkdir_all_ensure_dirs:
  "mkdir_all ds w = ensure_dirs (concat (map (path_prefixes []) ds)) w"
  by (induction ds arbitrary: w)
     (simp_all add: mkdir_parents_def ensure_dirs_append split: result.splits)

lemma setup_paths_eq:
  "setup_paths =
     [''data'', ''data/raw'', ''data'', ''data/processed'', ''data'', ''data/augmented'',
      ''data'', ''data/synthetic'', ''data'', ''data/tess'', ''models'', ''models'', ''models/tess'',
      ''reports'', ''reports/figures'', ''reports'', ''reports/figures'',
      ''reports/figures/augmentation'', ''reports'', ''reports/figures'', ''reports/figures/tess'',
      ''reports'', ''reports/validation'', ''reports'', ''reports/tess_analysis'', ''logs'']"
  by (simp add: setup_paths_def directories_def)

lemma ensure_dirs_Returns:
  "ensure_dirs ps w = Returns u w' \<Longrightarrow>
     w' = w\<lparr>fs := fs w'\<rparr> \<and>
     (\<forall>q. map_of (fs w') q = (if q \<in> set ps \<and> q \<noteq> [] then Some Dir else map_of (fs w) q))"
proof (induction ps arbitrary: w)
  case Nil
  then show ?case by simp
next
  case (Cons p ps)
  show ?case
  proof (cases "p = []")
    case True
    with Cons.prems have "ensure_dirs ps w = Returns u w'" by simp
    from Cons.IH[OF this] True show ?thesis by auto
  next
    case False
    show ?thesis
    proof (cases "map_of (fs w) p")
      case None
      with False Cons.prems
      have "ensure_dirs ps (w\<lparr>fs := dict_set p Dir (fs w)\<rparr>) = Returns u w'" by simp
      from Cons.IH[OF this] None False show ?thesis
        by (auto simp: map_of_dict_set)
    next
      case (Some n)
      show ?thesis
      proof (cases n)
        case Dir
        with Some False Cons.prems have "ensure_dirs ps w = Returns u w'" by simp
        from Cons.IH[OF this] Some Dir show ?thesis by auto
      next
        case (File c)
        with Some False Cons.prems show ?thesis by simp
      qed
    qed
  qed
qed

lemma ensure_dirs_Propagates:
  "ensure_dirs ps w = Propagates e w' \<Longrightarrow>
     w' = w\<lparr>fs := fs w'\<rparr> \<and>
     (\<forall>q. q \<notin> set ps \<longrightarrow> map_of (fs w') q = map_of (fs w) q)"
proof (induction ps arbitrary: w)
  case Nil
  then show ?case by simp
next
  case (Cons p ps)
  show ?case
  proof (cases "p = []")
    case True
    with Cons.prems have "ensure_dirs ps w = Propagates e w'" by simp
    from Cons.IH[OF this] show ?thesis by auto
  next
    case False
    show ?thesis
    proof (cases "map_of (fs w) p")
      case None
      with False Cons.prems
      have "ensure_dirs ps (w\<lparr>fs := dict_set p Dir (fs w)\<rparr>) = Propagates e w'" by simp
      from Cons.IH[OF this] show ?thesis
        by (auto simp: map_of_dict_set)
    next
      case (Some n)
      show ?thesis
      proof (cases n)
        case Dir
        with Some False Cons.prems have "ensure_dirs ps w = Propagates e w'" by simp
        from Cons.IH[OF this] show ?thesis by auto
      next
        case (File c)
        with Some False Cons.prems show ?thesis by auto
      qed
    qed
  qed
qed

lemma ensure_dirs_not_Diverges: "ensure_dirs ps w \<noteq> Diverges"
  by (induction ps arbitrary: w) (simp_all split: option.splits node.splits)

lemma ensure_dirs_idem:
  "\<forall>p\<in>set ps. p \<noteq> [] \<longrightarrow> map_of (fs w) p = Some Dir \<Longrightarrow> ensure_dirs ps w = Returns () w"
  by (induction ps) simp_all

lemma ensure_dirs_succeeds:
  "\<forall>p\<in>set ps. \<forall>c. map_of (fs w) p \<noteq> Some (File c) \<Longrightarrow> \<exists>w'. ensure_dirs ps w = Returns () w'"
proof (induction ps arbitrary: w)
  case Nil
  then show ?case by simp
next
  case (Cons p ps)
  show ?case
  proof (cases "p = [] \<or> map_of (fs w) p = Some Dir")
    case True
    moreover from Cons.prems have "\<forall>p\<in>set ps. \<forall>c. map_of (fs w) p \<noteq> Some (File c)" by simp
    from Cons.IH[OF this] obtain w' where "ensure_dirs ps w = Returns () w'" by blast
    ultimately show ?thesis by auto
  next
    case False
    with Cons.prems have none: "map_of (fs w) p = None"
      by (cases "map_of (fs w) p") (auto intro: node.exhaust)
    from Cons.prems
    have "\<forall>q\<in>set ps. \<forall>c. map_of (fs (w\<lparr>fs := dict_set p Dir (fs w)\<rparr>)) q \<noteq> Some (File c)"
      by (simp add: map_of_dict_set)
    from Cons.IH[OF this] obtain w' where
      "ensure_dirs ps (w\<lparr>fs := dict_set p Dir (fs w)\<rparr>) = Returns () w'" by blast
    with False none show ?thesis by simp
  qed
qed

lemma setup_environment_ensure_dirs:
  "setup_environment w =
     (case ensure_dirs setup_paths w of
        Returns u w' \<Rightarrow> Returns () (py_print (CHECK_MARK @ '' Directory structure created'') w')
      | Propagates e w' \<Rightarrow> Propagates e w'
      | Diverges \<Rightarrow> Diverges)"
  by (simp add: setup_environment_def mkdir_all_ensure_dirs setup_paths_def)

lemma directories_in_setup_paths: "d \<in> set directories \<Longrightarrow> d \<in> set setup_paths \<and> d \<noteq> []"
  by (auto simp: setup_paths_eq directories_def)

lemma setup_environment_Returns:
  assumes "setup_environment w = Returns u w'"
  shows "phase_runs w' = phase_runs w" and "ticks w' = ticks w" and "clock w' = clock w"
    and "stdout w' = stdout w @ [CHECK_MARK @ '' Directory structure created'']"
    and "\<And>q. q \<notin> set setup_paths \<Longrightarrow> map_of (fs w') q = map_of (fs w) q"
    and "\<And>q. q \<in> set setup_paths \<Longrightarrow> map_of (fs w') q = Some Dir"
proof -
  from assms obtain w1 where e: "ensure_dirs setup_paths w = Returns () w1"
    and w': "w' = py_print (CHECK_MARK @ '' Directory structure created'') w1"
    by (auto simp: setup_environment_ensure_dirs split: result.splits)
  note r = ensure_dirs_Returns[OF e]
  from r have eq: "w1 = w\<lparr>fs := fs w1\<rparr>" by blast
  show "phase_runs w' = phase_runs w" by (subst w', subst eq) (simp add: py_print_def)
  show "ticks w' = ticks w" by (subst w', subst eq) (simp add: py_print_def)
  show "clock w' = clock w" by (subst w', subst eq) (simp add: py_print_def)
  show "stdout w' = stdout w @ [CHECK_MARK @ '' Directory structure created'']"
    by (subst w', subst eq) (simp add: py_print_def)
  show "map_of (fs w') q = map_of (fs w) q" if "q \<notin> set setup_paths" for q
    using r that by (simp add: w' py_print_def)
  show "map_of (fs w') q = Some Dir" if "q \<in> set setup_paths" for q
  proof -
    from that have "q \<noteq> []" by (auto simp: setup_paths_eq)
    with r that show ?thesis by (simp add: w' py_print_def)
  qed
qed

lemma setup_environment_Propagates:
  assumes "setup_environment w = Propagates e w'"
  shows "phase_runs w' = phase_runs w"
    and "\<And>q. q \<notin> set setup_paths \<Longrightarrow> map_of (fs w') q = map_of (fs w) q"
proof -
  from assms have e: "ensure_dirs setup_paths w = Propagates e w'"
    by (auto simp: setup_environment_ensure_dirs split: result.splits)
  note r = ensure_dirs_Propagates[OF e]
  from r have eq: "w' = w\<lparr>fs := fs w'\<rparr>" by blast
  show "phase_runs w' = phase_runs w" by (subst eq) simp
  show "map_of (fs w') q = map_of (fs w) q" if "q \<notin> set setup_paths" for q
    using r that by simp
qed

lemma setup_environment_not_Diverges: "setup_environment w \<noteq> Diverges"
  using ensure_dirs_not_Diverges[of setup_paths w]
  by (simp add: setup_environment_ensure_dirs split: result.splits)

lemma setup_environment_succeeds:
  assumes "\<forall>p\<in>set setup_paths. \<forall>c. map_of (fs w) p \<noteq> Some (File c)"
  shows "\<exists>w'. setup_environment w = Returns () w'"
  using ensure_dirs_succeeds[OF assms] by (auto simp: setup_environment_ensure_dirs)

section \<open>Start of a run\<close>

lemma banner_frame [simp]:
  "fs (banner w) = fs w" "phase_runs (banner w) = phase_runs w"
  "ticks (banner w) = ticks w" "clock (banner w) = clock w"
  by (simp_all add: banner_def py_print_def)

lemma startup_banner:
  "startup w =
     (case setup_environment (banner w) of
        Returns u w5 \<Rightarrow>
          (case read_text ''copy_of_ada.py'' (w5\<lparr>ticks := Suc (ticks w5)\<rparr>) of
             Returns full_code w7 \<Rightarrow>
               Returns (\<lparr>timestamp = isoformat (clock w5 (ticks w5)), phases = []\<rparr>, full_code) w7
           | Propagates e w7 \<Rightarrow> Propagates e w7
           | Diverges \<Rightarrow> Diverges)
      | Propagates e w5 \<Rightarrow> Propagates e w5
      | Diverges \<Rightarrow> Diverges)"
  by (simp add: startup_def banner_def Let_def now_def split: result.splits)

lemma source_not_setup_path: "''copy_of_ada.py'' \<notin> set setup_paths"
  by (simp add: setup_paths_eq)

lemma summary_not_setup_path: "''pipeline_results.json'' \<notin> set setup_paths"
  by (simp add: setup_paths_eq)

lemma kepler_not_setup_path: "''data/raw/kepler_cumulative.csv'' \<notin> set setup_paths"
  by (simp add: setup_paths_eq)

lemma startup_Returns:
  assumes "startup w = Returns rc w1"
  shows "phase_runs w1 = phase_runs w"
    and "\<And>q. q \<notin> set setup_paths \<Longrightarrow> map_of (fs w1) q = map_of (fs w) q"
    and "\<And>q. q \<in> set setup_paths \<Longrightarrow> map_of (fs w1) q = Some Dir"
    and "map_of (fs w) ''copy_of_ada.py'' = Some (File (snd rc))"
    and "fst rc = \<lparr>timestamp = isoformat (clock w (ticks w)), phases = []\<rparr>"
proof -
  from assms obtain w5 where s: "setup_environment (banner w) = Returns () w5"
    and r: "read_text ''copy_of_ada.py'' (w5\<lparr>ticks := Suc (ticks w5)\<rparr>) = Returns (snd rc) w1"
    and rc: "fst rc = \<lparr>timestamp = isoformat (clock w5 (ticks w5)), phases = []\<rparr>"
    by (auto simp: startup_banner split: result.splits)
  from r have w1: "w1 = w5\<lparr>ticks := Suc (ticks w5)\<rparr>"
    and src: "map_of (fs w5) ''copy_of_ada.py'' = Some (File (snd rc))"
    by (auto simp: read_text_def split: option.splits node.splits)
  note f = setup_environment_Returns[OF s]
  show "phase_runs w1 = phase_runs w" using f(1) by (simp add: w1)
  show "map_of (fs w1) q = map_of (fs w) q" if "q \<notin> set setup_paths" for q
    using f(5)[OF that] by (simp add: w1)
  show "map_of (fs w1) q = Some Dir" if "q \<in> set setup_paths" for q
    using f(6)[OF that] by (simp add: w1)
  show "map_of (fs w) ''copy_of_ada.py'' = Some (File (snd rc))"
    using f(5)[OF source_not_setup_path] src by simp
  show "fst rc = \<lparr>timestamp = isoformat (clock w (ticks w)), phases = []\<rparr>"
    using rc f(2) f(3) by simp
qed

lemma startup_Propagates:
  assumes "startup w = Propagates e w'"
  shows "phase_runs w' = phase_runs w"
    and "\<And>q. q \<notin> set setup_paths \<Longrightarrow> map_of (fs w') q = map_of (fs w) q"
proof -
  from assms consider
      (dirs) "setup_environment (banner w) = Propagates e w'"
    | (read) w5 where "setup_environment (banner w) = Returns () w5"
        "read_text ''copy_of_ada.py'' (w5\<lparr>ticks := Suc (ticks w5)\<rparr>) = Propagates e w'"
    by (auto simp: startup_banner split: result.splits)
  then have "phase_runs w' = phase_runs w
      \<and> (\<forall>q. q \<notin> set setup_paths \<longrightarrow> map_of (fs w') q = map_of (fs w) q)"
  proof cases
    case dirs
    from setup_environment_Propagates[OF dirs] show ?thesis by simp
  next
    case read
    from read(2) have w': "w' = w5\<lparr>ticks := Suc (ticks w5)\<rparr>"
      by (auto simp: read_text_def split: option.splits node.splits)
    from setup_environment_Returns(1,5)[OF read(1)] show ?thesis by (simp add: w')
  qed
  then show "phase_runs w' = phase_runs w"
    and "\<And>q. q \<notin> set setup_paths \<Longrightarrow> map_of (fs w') q = map_of (fs w) q" by simp_all
qed

lemma startup_not_Diverges: "startup w \<noteq> Diverges"
  using setup_environment_not_Diverges[of "banner w"]
  by (auto simp: startup_banner read_text_def split: result.splits option.splits node.splits)

lemma startup_succeeds:
  assumes "\<forall>p\<in>set setup_paths. \<forall>c. map_of (fs w) p \<noteq> Some (File c)"
    and "map_of (fs w) ''copy_of_ada.py'' = Some (File full_code)"
  shows "\<exists>r w1. startup w = Returns (r, full_code) w1"
proof -
  from assms(1) have "\<forall>p\<in>set setup_paths. \<forall>c. map_of (fs (banner w)) p \<noteq> Some (File c)" by simp
  from setup_environment_succeeds[OF this] obtain w5 where
    s: "setup_environment (banner w) = Returns () w5" by blast
  from setup_environment_Returns(5)[OF s source_not_setup_path] assms(2)
  have "map_of (fs w5) ''copy_of_ada.py'' = Some (File full_code)" by simp
  then show ?thesis by (simp add: startup_banner s read_text_def)
qed

lemma startup_without_source:
  assumes "\<forall>c. map_of (fs w) ''copy_of_ada.py'' \<noteq> Some (File c)"
  shows "\<exists>e w'. startup w = Propagates e w'"
proof (cases "startup w")
  case (Returns rc w1)
  from startup_Returns(4)[OF this] assms show ?thesis by simp
next
  case (Propagates e w')
  then show ?thesis by blast
next
  case Diverges
  then show ?thesis by (simp add: startup_not_Diverges)
qed

section \<open>Running one phase\<close>

lemma announce_frame [simp]:
  "fs (announce n c w) = fs w" "ticks (announce n c w) = ticks w"
  "clock (announce n c w) = clock w"
  "phase_runs (announce n c w) = phase_runs w @ [(n, c)]"
  by (simp_all add: announce_def py_print_def Let_def)

lemma py_print_frame [simp]:
  "fs (py_print s w) = fs w" "ticks (py_print s w) = ticks w" "clock (py_print s w) = clock w"
  "phase_runs (py_print s w) = phase_runs w" "stdout (py_print s w) = stdout w @ [s]"
  by (simp_all add: py_print_def)

lemma exec_phase_runs:
  "exec interp code w = Finished w1 \<Longrightarrow> phase_runs w1 = phase_runs w"
  "exec interp code w = Raised e w1 \<Longrightarrow> phase_runs w1 = phase_runs w"
  by (auto simp: exec_def split: if_splits outcome.splits)

lemma exec_empty: "exec interp [] w = Finished w"
  by (simp add: exec_def)

lemma fwrite_frame [simp]:
  "phase_runs (fwrite p s w) = phase_runs w" "ticks (fwrite p s w) = ticks w"
  "clock (fwrite p s w) = clock w" "stdout (fwrite p s w) = stdout w"
  by (simp_all add: fwrite_def split: option.splits node.splits)

lemma fwrite_File:
  "map_of (fs w) p = Some (File c) \<Longrightarrow>
     map_of (fs (fwrite p s w)) = (map_of (fs w))(p \<mapsto> File (c @ s))"
  by (simp add: fwrite_def map_of_dict_set)

lemma open_w_Returns:
  assumes "map_of (fs w) p \<noteq> Some Dir" and "dir_exists w (parent_dir p)"
  shows "open_w p w = Returns () (w\<lparr>fs := dict_set p (File []) (fs w)\<rparr>)"
  using assms by (simp add: open_w_def)

lemma open_w_cases:
  "(\<exists>w'. open_w p w = Returns () w' \<and> w' = w\<lparr>fs := dict_set p (File []) (fs w)\<rparr>
          \<and> map_of (fs w) p \<noteq> Some Dir \<and> dir_exists w (parent_dir p))
   \<or> (open_w p w = Propagates (OSError p) w
       \<and> (map_of (fs w) p = Some Dir \<or> \<not> dir_exists w (parent_dir p)))"
  by (simp add: open_w_def)

lemma write_log_Returns:
  assumes "map_of (fs w) (log_file_of n) \<noteq> Some Dir"
    and "dir_exists w (parent_dir (log_file_of n))"
  shows "\<exists>w'. write_log n e w = Returns () w'
          \<and> map_of (fs w') = (map_of (fs w))(log_file_of n \<mapsto>
               File (''Error in '' @ n @ [NL] @ ''Timestamp: '' @ isoformat (clock w (ticks w))
                     @ [NL, NL] @ format_exc e))
          \<and> phase_runs w' = phase_runs w \<and> stdout w' = stdout w"
proof -
  define p where "p = log_file_of n"
  define w1 where "w1 = w\<lparr>fs := dict_set p (File []) (fs w)\<rparr>"
  define w2 where "w2 = fwrite p (''Error in '' @ n @ [NL]) w1"
  define w3 where "w3 = w2\<lparr>ticks := Suc (ticks w2)\<rparr>"
  define w4 where "w4 = fwrite p (''Timestamp: '' @ isoformat (clock w2 (ticks w2)) @ [NL, NL]) w3"
  define w5 where "w5 = fwrite p (format_exc e) w4"
  have o: "open_w p w = Returns () w1"
    using assms by (simp add: open_w_Returns p_def w1_def)
  have m1: "map_of (fs w1) = (map_of (fs w))(p \<mapsto> File [])"
    by (simp add: w1_def map_of_dict_set)
  then have m2: "map_of (fs w2) = (map_of (fs w))(p \<mapsto> File (''Error in '' @ n @ [NL]))"
    by (simp add: w2_def fwrite_File[where c="[]"])
  then have m3: "map_of (fs w3) = (map_of (fs w))(p \<mapsto> File (''Error in '' @ n @ [NL]))"
    by (simp add: w3_def)
  then have m4: "map_of (fs w4) = (map_of (fs w))(p \<mapsto>
      File ((''Error in '' @ n @ [NL]) @ ''Timestamp: '' @ isoformat (clock w2 (ticks w2)) @ [NL, NL]))"
    by (simp add: w4_def fwrite_File[where c="''Error in '' @ n @ [NL]"])
  then have m5: "map_of (fs w5) = (map_of (fs w))(p \<mapsto>
      File (((''Error in '' @ n @ [NL]) @ ''Timestamp: '' @ isoformat (clock w2 (ticks w2)) @ [NL, NL])
            @ format_exc e))"
    by (simp add: w5_def
        fwrite_File[where c="(''Error in '' @ n @ [NL]) @ ''Timestamp: '' @ isoformat (clock w2 (ticks w2)) @ [NL, NL]"])
  have t: "clock w2 (ticks w2) = clock w (ticks w)"
    by (simp add: w2_def w1_def)
  have "write_log n e w = Returns () w5"
    by (simp add: write_log_def Let_def now_def o[unfolded p_def]
        w5_def w4_def w3_def w2_def p_def)
  moreover have "phase_runs w5 = phase_runs w" "stdout w5 = stdout w"
    by (simp_all add: w5_def w4_def w3_def w2_def w1_def)
  ultimately show ?thesis using m5 t by (simp add: p_def)
qed

lemma write_log_frame:
  assumes "write_log n e w = Returns u w'"
  shows "phase_runs w' = phase_runs w"
    and "\<And>q. q \<noteq> log_file_of n \<Longrightarrow> map_of (fs w') q = map_of (fs w) q"
proof -
  from open_w_cases[of "log_file_of n" w] assms
  have a: "map_of (fs w) (log_file_of n) \<noteq> Some Dir" "dir_exists w (parent_dir (log_file_of n))"
    by (auto simp: write_log_def Let_def)
  from write_log_Returns[OF a, of e] assms
  show "phase_runs w' = phase_runs w"
    and "\<And>q. q \<noteq> log_file_of n \<Longrightarrow> map_of (fs w') q = map_of (fs w) q" by auto
qed

lemma write_log_not_Diverges: "write_log n e w \<noteq> Diverges"
  using open_w_cases[of "log_file_of n" w]
  by (auto simp: write_log_def Let_def split: prod.splits)

lemma write_log_Propagates:
  "write_log n e w = Propagates err w' \<Longrightarrow> w' = w"
  using open_w_cases[of "log_file_of n" w]
  by (auto simp: write_log_def Let_def split: prod.splits)

lemma run_phase_phase_runs:
  assumes "run_phase interp n code w = Returns ok w2"
  shows "phase_runs w2 = phase_runs w @ [(n, code)]"
proof (cases "exec interp code (announce n code w)")
  case (Finished w1)
  with assms exec_phase_runs(1)[OF Finished] show ?thesis
    by (auto simp: run_phase_def)
next
  case (Raised e w1)
  with assms obtain u where
    "write_log n e (py_print (format_exc e)
        (py_print ([NL] @ BALLOT_X @ '' '' @ n @ '' failed with error:'') w1)) = Returns u w2"
    by (auto simp: run_phase_def Let_def split: if_splits result.splits)
  from write_log_frame(1)[OF this] exec_phase_runs(2)[OF Raised] show ?thesis by simp
next
  case Hangs
  with assms show ?thesis by (simp add: run_phase_def)
qed

lemma run_phase_Propagates_phase_runs:
  assumes "run_phase interp n code w = Propagates err w2"
  shows "phase_runs w2 = phase_runs w @ [(n, code)]"
proof (cases "exec interp code (announce n code w)")
  case (Finished w1)
  with assms show ?thesis by (auto simp: run_phase_def)
next
  case (Raised e w1)
  show ?thesis
  proof (cases "is_Exception e")
    case True
    with assms Raised have
      "write_log n e (py_print (format_exc e)
          (py_print ([NL] @ BALLOT_X @ '' '' @ n @ '' failed with error:'') w1)) = Propagates err w2"
      by (auto simp: run_phase_def Let_def split: result.splits)
    from write_log_Propagates[OF this] exec_phase_runs(2)[OF Raised] show ?thesis by simp
  next
    case False
    with assms Raised exec_phase_runs(2)[OF Raised] show ?thesis
      by (auto simp: run_phase_def)
  qed
next
  case Hangs
  with assms show ?thesis by (simp add: run_phase_def)
qed

lemma run_phase_empty:
  "run_phase interp n [] w
     = Returns True (py_print ([NL] @ CHECK_MARK @ '' '' @ n @ '' completed successfully'')
                       (announce n [] w))"
  by (simp add: run_phase_def exec_empty)

section \<open>Timestamps\<close>


lemma all_digits_append [simp]: "all_digits (xs @ ys) = (all_digits xs \<and> all_digits ys)"
  by (simp add: all_digits_def)





section \<open>Saving the summary\<close>

lemma print_summary_frame [simp]:
  "fs (print_summary d w) = fs w" "phase_runs (print_summary d w) = phase_runs w"
  by (induction d w rule: print_summary.induct) simp_all

lemma print_summary_stdout: "set (stdout w) \<subseteq> set (stdout (print_summary d w))"
  by (induction d w rule: print_summary.induct) auto

lemma record_scraping_frame [simp]:
  "fs (snd (record_scraping ok r w)) = fs w"
  "phase_runs (snd (record_scraping ok r w)) = phase_runs w"
  "fst (record_scraping ok r w)
     = set_phase ''data_scraping'' (if ok then ''success'' else ''failed'') r"
  by (simp_all add: record_scraping_def)

lemma check_raw_data_frame [simp]:
  "fs (check_raw_data w) = fs w" "phase_runs (check_raw_data w) = phase_runs w"
  by (simp_all add: check_raw_data_def)

lemma path_exists_cong: "fs w = fs w' \<Longrightarrow> path_exists w p = path_exists w' p"
  by (simp add: path_exists_def)

lemma eda_gate_frame [simp]:
  "fs (snd (eda_gate r w)) = fs w"
  "phase_runs (snd (eda_gate r w)) = phase_runs w"
  "fst (eda_gate r w)
     = set_phase ''eda'' (if path_exists w ''data/raw/kepler_cumulative.csv''
                          then ''skipped - requires manual review'' else ''skipped - no data'') r"
  by (simp_all add: eda_gate_def)

lemma parent_dir_summary: "parent_dir ''pipeline_results.json'' = []"
  by (simp add: parent_dir_def)

lemma save_and_report_Returns:
  assumes "map_of (fs w) ''pipeline_results.json'' \<noteq> Some Dir"
  shows "\<exists>w'. save_and_report r w = Returns () w'
          \<and> map_of (fs w') = (map_of (fs w))(''pipeline_results.json'' \<mapsto> File (json_dump r))
          \<and> phase_runs w' = phase_runs w
          \<and> ''PIPELINE EXECUTION COMPLETE'' \<in> set (stdout w')"
proof -
  define w1 where "w1 = w\<lparr>fs := dict_set ''pipeline_results.json'' (File []) (fs w)\<rparr>"
  define w2 where "w2 = fwrite ''pipeline_results.json'' (json_dump r) w1"
  define w8 where "w8 =
     py_print ([NL] @ ''Phase Summary:'')
       (py_print ''Logs saved to: logs/''
          (py_print ([NL] @ ''Results saved to: pipeline_results.json'')
             (py_print (replicate 80 (CHR ''=''))
                (py_print ''PIPELINE EXECUTION COMPLETE''
                   (py_print ([NL] @ replicate 80 (CHR ''='')) w2)))))"
  have o: "open_w ''pipeline_results.json'' w = Returns () w1"
    using assms by (simp add: open_w_def dir_exists_def parent_dir_summary w1_def)
  have r: "save_and_report r w = Returns () (print_summary (phases r) w8)"
    by (simp add: save_and_report_def o Let_def w8_def w2_def)
  have "map_of (fs w1) ''pipeline_results.json'' = Some (File [])"
    by (simp add: w1_def map_of_dict_set)
  from fwrite_File[OF this, of "json_dump r"]
  have m: "map_of (fs w2) = (map_of (fs w))(''pipeline_results.json'' \<mapsto> File (json_dump r))"
    by (simp add: w2_def w1_def map_of_dict_set)
  have "''PIPELINE EXECUTION COMPLETE'' \<in> set (stdout w8)" by (simp add: w8_def)
  with print_summary_stdout have c: "''PIPELINE EXECUTION COMPLETE''
      \<in> set (stdout (print_summary (phases r) w8))" by blast
  have "fs w8 = fs w2" "phase_runs w8 = phase_runs w" by (simp_all add: w8_def w2_def w1_def)
  with r m c show ?thesis by simp
qed

lemma save_and_report_Propagates:
  assumes "map_of (fs w) ''pipeline_results.json'' = Some Dir"
  shows "save_and_report r w = Propagates (OSError ''pipeline_results.json'') w"
  using assms by (simp add: save_and_report_def open_w_def)

lemma finish_save: "\<exists>w3. finish r ok w = save_and_report (final_record r ok w) w3
    \<and> fs w3 = fs w \<and> phase_runs w3 = phase_runs w"
proof -
  obtain r1 w1 where a: "record_scraping ok r w = (r1, w1)" by (cases "record_scraping ok r w")
  obtain r2 w3 where b: "eda_gate r1 (check_raw_data w1) = (r2, w3)"
    by (cases "eda_gate r1 (check_raw_data w1)")
  from a have r1: "r1 = set_phase ''data_scraping'' (if ok then ''success'' else ''failed'') r"
    and w1: "fs w1 = fs w" "phase_runs w1 = phase_runs w"
    using record_scraping_frame[of ok r w] by simp_all
  from b have w3: "fs w3 = fs w1" "phase_runs w3 = phase_runs w1"
    and r2: "r2 = set_phase ''eda'' (if path_exists (check_raw_data w1) ''data/raw/kepler_cumulative.csv''
                          then ''skipped - requires manual review'' else ''skipped - no data'') r1"
    using eda_gate_frame[of r1 "check_raw_data w1"] by simp_all
  have "path_exists (check_raw_data w1) ''data/raw/kepler_cumulative.csv''
        = path_exists w ''data/raw/kepler_cumulative.csv''"
    by (rule path_exists_cong) (simp add: w1)
  with r2 r1 have "r2 = final_record r ok w" by (simp add: final_record_def)
  moreover have "finish r ok w = save_and_report r2 w3"
    by (simp add: finish_def a b)
  ultimately show ?thesis using w1 w3 by auto
qed

lemma finish_Returns:
  assumes "map_of (fs w) ''pipeline_results.json'' \<noteq> Some Dir"
  shows "\<exists>w'. finish r ok w = Returns () w'
          \<and> map_of (fs w') = (map_of (fs w))(''pipeline_results.json'' \<mapsto>
                File (json_dump (final_record r ok w)))
          \<and> phase_runs w' = phase_runs w
          \<and> ''PIPELINE EXECUTION COMPLETE'' \<in> set (stdout w')"
proof -
  from finish_save[of r ok w] obtain w3 where
    f: "finish r ok w = save_and_report (final_record r ok w) w3"
    and w3: "fs w3 = fs w" "phase_runs w3 = phase_runs w" by blast
  from assms w3 have "map_of (fs w3) ''pipeline_results.json'' \<noteq> Some Dir" by simp
  from save_and_report_Returns[OF this, of "final_record r ok w"] f w3 show ?thesis by simp
qed

lemma finish_Returns_only_if:
  assumes "finish r ok w = Returns u w'"
  shows "map_of (fs w) ''pipeline_results.json'' \<noteq> Some Dir"
proof
  assume d: "map_of (fs w) ''pipeline_results.json'' = Some Dir"
  from finish_save[of r ok w] obtain w3 where
    f: "finish r ok w = save_and_report (final_record r ok w) w3"
    and w3: "fs w3 = fs w" by blast
  from d w3 have "map_of (fs w3) ''pipeline_results.json'' = Some Dir" by simp
  from save_and_report_Propagates[OF this] f assms show False by simp
qed

lemma final_record_shape:
  assumes "phases r = []"
  shows "final_record r ok w =
     \<lparr>timestamp = timestamp r,
      phases = [(''data_scraping'', if ok then ''success'' else ''failed''),
                (''eda'', if path_exists w ''data/raw/kepler_cumulative.csv''
                          then ''skipped - requires manual review'' else ''skipped - no data'')]\<rparr>"
  using assms by (cases r) (simp add: final_record_def set_phase_def)

text \<open>What a run that returns has done.\<close>

lemma main_Returns:
  assumes "main interp w = Returns u w'"
  shows "\<exists>rc w1 ok w2.
           startup w = Returns rc w1
         \<and> run_phase interp ''Data Scraping'' (scraper_section (snd rc)) w1 = Returns ok w2
         \<and> map_of (fs w') = (map_of (fs w2))(''pipeline_results.json'' \<mapsto>
              File (json_dump (final_record (fst rc) ok w2)))
         \<and> phase_runs w' = phase_runs w @ [(''Data Scraping'', scraper_section (snd rc))]
         \<and> ''PIPELINE EXECUTION COMPLETE'' \<in> set (stdout w')"
proof -
  from assms obtain rc w1 ok w2 where s: "startup w = Returns rc w1"
    and p: "run_phase interp ''Data Scraping'' (scraper_section (snd rc)) w1 = Returns ok w2"
    and f: "finish (fst rc) ok w2 = Returns u w'"
    by (auto simp: main_def split: result.splits)
  from finish_Returns[OF finish_Returns_only_if[OF f], of "fst rc" ok] f
  have "map_of (fs w') = (map_of (fs w2))(''pipeline_results.json'' \<mapsto>
              File (json_dump (final_record (fst rc) ok w2)))"
    and "phase_runs w' = phase_runs w2"
    and "''PIPELINE EXECUTION COMPLETE'' \<in> set (stdout w')" by simp_all
  with s p run_phase_phase_runs[OF p] startup_Returns(1)[OF s] show ?thesis by auto
qed

lemma main_after_startup:
  assumes "startup w = Returns rc w1"
    and "run_phase interp ''Data Scraping'' (scraper_section (snd rc)) w1 = Returns ok w2"
  shows "main interp w = finish (fst rc) ok w2"
  using assms by (simp add: main_def)

section \<open>The marker texts\<close>

lemma find_str_eqI:
  assumes "occurs_at s sub k" and "\<forall>j<k. \<not> occurs_at s sub j"
  shows "find_str s sub = int k"
proof -
  from assms(1) have "\<not> find_str s sub < 0" by (auto simp: find_str_negative_iff)
  then have p: "0 \<le> find_str s sub" by simp
  note f = find_str_present[OF p]
  have "\<not> nat (find_str s sub) < k" using assms(2) f by blast
  moreover have "\<not> k < nat (find_str s sub)" using assms(1) f by blast
  ultimately show ?thesis using p by simp
qed

lemma find_str_prefix: "find_str (sub @ rest) sub = 0"
  using find_str_eqI[of "sub @ rest" sub 0] by (simp add: occurs_at_0)

lemma find_str_too_short: "length s < length sub \<Longrightarrow> find_str s sub = - 1"
proof -
  assume "length s < length sub"
  then have "\<forall>k. \<not> occurs_at s sub k" by (simp add: occurs_at_def)
  then show ?thesis using find_str_absent[of s sub] by (simp add: find_str_negative_iff)
qed

lemma occurs_at_hd:
  assumes "occurs_at s sub k" and "sub \<noteq> []"
  shows "s ! k = hd sub"
proof -
  from assms have k: "k < length s" by (cases sub) (simp_all add: occurs_at_def)
  from assms(1) have "hd (take (length sub) (drop k s)) = hd sub" by (simp add: occurs_at_def)
  moreover from assms(2) k have "hd (take (length sub) (drop k s)) = s ! k"
    by (cases sub) (simp_all add: hd_drop_conv_nth)
  ultimately show ?thesis by simp
qed

lemma no_occurrence_inside:
  assumes "sub \<noteq> []" and "hd sub \<notin> set mid" and "length a \<le> j" and "j < length a + length mid"
  shows "\<not> occurs_at (a @ mid @ rest) sub j"
proof
  assume "occurs_at (a @ mid @ rest) sub j"
  from occurs_at_hd[OF this assms(1)] have "(a @ mid @ rest) ! j = hd sub" .
  moreover from assms(3,4) have in_mid: "j - length a < length mid" by simp
  with assms(3) have "(a @ mid @ rest) ! j = mid ! (j - length a)"
    by (simp add: nth_append)
  moreover from in_mid have "mid ! (j - length a) \<in> set mid" by simp
  ultimately show False using assms(2) by simp
qed

lemma occurs_at_append: "occurs_at (pre @ sub @ rest) sub (length pre)"
  by (simp add: occurs_at_def)

lemma find_str_after:
  assumes "sub \<noteq> []" and "hd sub \<notin> set pre"
  shows "find_str (pre @ sub @ rest) sub = int (length pre)"
proof (rule find_str_eqI)
  show "occurs_at (pre @ sub @ rest) sub (length pre)" by (rule occurs_at_append)
  show "\<forall>j<length pre. \<not> occurs_at (pre @ sub @ rest) sub j"
    using no_occurrence_inside[of sub pre "[]" _ "sub @ rest"] assms by simp
qed

lemma first_occurrence_from_None:
  "\<forall>j. \<not> occurs_at s sub j \<Longrightarrow> first_occurrence_from s sub k fuel = None"
  by (induction fuel arbitrary: k) simp_all

lemma markers_facts:
  "START_MARKER \<noteq> []" "END_MARKER \<noteq> []" "hd START_MARKER = CHR ''c''" "hd END_MARKER = CHR ''#''"
  "length START_MARKER = 27" "length END_MARKER = 110"
  "CHR ''c'' \<notin> set END_MARKER" "CHR ''#'' \<notin> set START_MARKER"
  by (simp_all add: START_MARKER_def END_MARKER_def NL_def)

lemma find_src_no_end:
  "find_str src_no_end START_MARKER = 0" "find_str src_no_end END_MARKER = - 1"
proof -
  show "find_str src_no_end START_MARKER = 0"
    unfolding src_no_end_def by (rule find_str_prefix)
  show "find_str src_no_end END_MARKER = - 1"
    by (rule find_str_too_short) (simp add: src_no_end_def markers_facts)
qed

lemma scraper_section_src_no_end:
  "scraper_section src_no_end = START_MARKER @ [NL] @ ''    pass''"
proof -
  have "scraper_section src_no_end = butlast (drop 0 src_no_end)"
    using slice_absent_end[of src_no_end START_MARKER END_MARKER]
    by (simp add: scraper_section_def find_src_no_end)
  also have "\<dots> = START_MARKER @ [NL] @ ''    pass''"
    by (simp add: src_no_end_def butlast_append)
  finally show ?thesis .
qed

lemma spec_extract_src_no_end:
  "spec_extract src_no_end START_MARKER END_MARKER = Inl ExtractionError"
proof -
  have "find_str src_no_end END_MARKER < 0" by (simp add: find_src_no_end)
  then have "\<forall>j. \<not> occurs_at src_no_end END_MARKER j" by (simp add: find_str_negative_iff)
  then have "first_occurrence_from src_no_end END_MARKER k fuel = None" for k fuel
    by (rule first_occurrence_from_None)
  then show ?thesis by (simp add: spec_extract_def split: option.splits)
qed

lemma find_src_ordered:
  "find_str src_ordered START_MARKER = 16" "find_str src_ordered END_MARKER = 53"
proof -
  have "find_str ((''import requests'' @ [NL]) @ START_MARKER
          @ ([NL] @ ''    pass'' @ [NL] @ END_MARKER @ [NL])) START_MARKER
        = int (length (''import requests'' @ [NL]))"
    by (rule find_str_after) (simp_all add: markers_facts NL_def)
  then show "find_str src_ordered START_MARKER = 16" by (simp add: src_ordered_def)
  have "find_str ((''import requests'' @ [NL] @ START_MARKER @ [NL] @ ''    pass'' @ [NL])
          @ END_MARKER @ [NL]) END_MARKER
        = int (length (''import requests'' @ [NL] @ START_MARKER @ [NL] @ ''    pass'' @ [NL]))"
    by (rule find_str_after) (simp_all add: markers_facts NL_def)
  then show "find_str src_ordered END_MARKER = 53" by (simp add: src_ordered_def markers_facts)
qed

lemma find_src_end_first:
  "find_str src_end_first START_MARKER = 111" "find_str src_end_first END_MARKER = 0"
proof -
  have "find_str ((END_MARKER @ [NL]) @ START_MARKER
          @ ([NL] @ ''    pass'' @ [NL] @ END_MARKER @ [NL])) START_MARKER
        = int (length (END_MARKER @ [NL]))"
    by (rule find_str_after) (simp_all add: markers_facts NL_def)
  then show "find_str src_end_first START_MARKER = 111"
    by (simp add: src_end_first_def markers_facts)
  show "find_str src_end_first END_MARKER = 0"
    unfolding src_end_first_def by (rule find_str_prefix)
qed

lemma spec_extract_src_end_first:
  "spec_extract src_end_first START_MARKER END_MARKER
     = Inr (START_MARKER @ [NL] @ ''    pass'' @ [NL])"
proof -
  define a where "a = END_MARKER @ [NL] @ ''c''"
  define mid where "mid = ''lass NASAExoplanetScraper:'' @ [NL] @ ''    pass'' @ [NL]"
  have src: "src_end_first = a @ mid @ END_MARKER @ [NL]"
    by (simp add: src_end_first_def a_def mid_def START_MARKER_def)
  have la: "length a = 112" by (simp add: a_def markers_facts)
  have lm: "length mid = 36" by (simp add: mid_def)
  have len: "length src_end_first = 259" by (simp add: src la lm markers_facts)
  have p: "0 \<le> find_str src_end_first START_MARKER" by (simp add: find_src_end_first)
  from find_str_present[OF p]
  have s1: "occurs_at src_end_first START_MARKER 111"
    and s2: "\<forall>j<111. \<not> occurs_at src_end_first START_MARKER j"
    by (simp_all add: find_src_end_first)
  have fa: "first_occurrence_from src_end_first START_MARKER 0 (Suc (length src_end_first))
            = Some 111"
    by (rule first_occurrence_from_Some[OF s1]) (use s2 len in simp_all)
  have e1: "occurs_at src_end_first END_MARKER 148"
    using occurs_at_append[of "a @ mid" END_MARKER "[NL]"] by (simp add: src la lm)
  have e2: "\<forall>j. Suc 111 \<le> j \<and> j < 148 \<longrightarrow> \<not> occurs_at src_end_first END_MARKER j"
    unfolding src
    using no_occurrence_inside[of END_MARKER mid a _ "END_MARKER @ [NL]"]
    by (simp add: la lm markers_facts mid_def NL_def)
  have fb: "first_occurrence_from src_end_first END_MARKER (Suc 111) (length src_end_first - 111)
            = Some 148"
    by (rule first_occurrence_from_Some[OF e1 _ _ e2]) (simp_all add: len)
  have t: "take (148 - 111) (drop 111 src_end_first) = START_MARKER @ [NL] @ ''    pass'' @ [NL]"
    by (simp add: src_end_first_def markers_facts)
  show ?thesis
    by (simp only: spec_extract_def fa option.case fb t)
qed

lemma scraper_section_src_end_first: "scraper_section src_end_first = []"
  using slice_misordered[of src_end_first END_MARKER START_MARKER]
  by (simp add: scraper_section_def find_src_end_first)

section \<open>Properties of the phase executor\<close>

lemma world_with_simps [simp]:
  "fs (world_with files) = files" "phase_runs (world_with files) = []"
  "ticks (world_with files) = 0" "clock (world_with files) = clock0"
  "stdout (world_with files) = []"
  by (simp_all add: world_with_def)










lemma exec_interp_ok: "exec interp_ok code w = Finished w"
  by (simp add: exec_def interp_ok_def)





section \<open>Properties of a whole run\<close>

lemma run_phase_interp_ok:
  "\<exists>w2. run_phase interp_ok n code w = Returns True w2 \<and> fs w2 = fs w"
  by (simp add: run_phase_def exec_interp_ok)

lemma main_completes:
  assumes "startup w = Returns rc w1"
    and "run_phase interp ''Data Scraping'' (scraper_section (snd rc)) w1 = Returns ok w2"
    and "map_of (fs w2) ''pipeline_results.json'' \<noteq> Some Dir"
  shows "\<exists>w'. main interp w = Returns () w'
          \<and> map_of (fs w') = (map_of (fs w2))(''pipeline_results.json'' \<mapsto>
                File (json_dump (final_record (fst rc) ok w2)))
          \<and> ''PIPELINE EXECUTION COMPLETE'' \<in> set (stdout w')"
  using finish_Returns[OF assms(3), of "fst rc" ok] main_after_startup[OF assms(1,2)]
  by auto

lemma main_interp_ok:
  assumes "\<forall>p\<in>set setup_paths. \<forall>c. map_of (fs w) p \<noteq> Some (File c)"
    and "map_of (fs w) ''copy_of_ada.py'' = Some (File src)"
    and "map_of (fs w) ''pipeline_results.json'' \<noteq> Some Dir"
  shows "\<exists>w'. main interp_ok w = Returns () w'
          \<and> (\<forall>q. q \<notin> set setup_paths \<and> q \<noteq> ''pipeline_results.json''
                 \<longrightarrow> map_of (fs w') q = map_of (fs w) q)"
proof -
  from startup_succeeds[OF assms(1,2)] obtain r w1 where
    s: "startup w = Returns (r, src) w1" by blast
  from run_phase_interp_ok[of "''Data Scraping''" "scraper_section src" w1] obtain w2 where
    p: "run_phase interp_ok ''Data Scraping'' (scraper_section (snd (r, src))) w1 = Returns True w2"
    and f: "fs w2 = fs w1" by auto
  note keep = startup_Returns(2)[OF s]
  from keep[OF summary_not_setup_path] assms(3) f
  have "map_of (fs w2) ''pipeline_results.json'' \<noteq> Some Dir" by simp
  from main_completes[OF s p this] obtain w' where
    m: "main interp_ok w = Returns () w'"
    and fw: "map_of (fs w') = (map_of (fs w2))(''pipeline_results.json'' \<mapsto>
                File (json_dump (final_record (fst (r, src)) True w2)))" by blast
  have "map_of (fs w') q = map_of (fs w) q"
    if "q \<notin> set setup_paths \<and> q \<noteq> ''pipeline_results.json''" for q
    using that fw f keep[of q] by simp
  with m show ?thesis by blast
qed

lemma source_world_free:
  "\<forall>p\<in>set setup_paths. \<forall>c. map_of (fs (source_world src)) p \<noteq> Some (File c)"
  by (simp add: source_world_def setup_paths_eq)

section \<open>Properties of the extraction\<close>

text \<open>
  Claim C1, as the code has it. The slicing of lines 71-72 never fails, whatever the
  markers: there is no extraction error in the program. When the start marker is absent
  the body is empty; when the start marker is present and the end marker is absent the
  body runs from the start marker up to, but not including, the last character of the
  text; when the end marker's first position is not after the start marker's, the body
  is empty. (A marker is absent exactly when \<open>find_str\<close> is negative.)
\<close>

theorem extract_between_missing_or_misordered:
  "(find_str fullText startMarker < 0 \<longrightarrow> extract_between fullText startMarker endMarker = [])
   \<and> (0 \<le> find_str fullText startMarker \<and> find_str fullText endMarker < 0 \<longrightarrow>
        extract_between fullText startMarker endMarker
          = butlast (drop (nat (find_str fullText startMarker)) fullText))
   \<and> (0 \<le> find_str fullText endMarker
        \<and> find_str fullText endMarker \<le> find_str fullText startMarker \<longrightarrow>
        extract_between fullText startMarker endMarker = [])"
  using slice_absent_start slice_absent_end slice_misordered by blast

theorem extract_between_missing_or_misordered_witness:
  "(find_str src_no_markers START_MARKER < 0
      \<and> extract_between src_no_markers START_MARKER END_MARKER = [])
   \<and> (0 \<le> find_str src_no_end START_MARKER \<and> find_str src_no_end END_MARKER < 0
      \<and> extract_between src_no_end START_MARKER END_MARKER = START_MARKER @ [NL] @ ''    pass'')
   \<and> (0 \<le> find_str src_end_first END_MARKER
      \<and> find_str src_end_first END_MARKER \<le> find_str src_end_first START_MARKER
      \<and> extract_between src_end_first START_MARKER END_MARKER = [])"
proof -
  have a: "find_str src_no_markers START_MARKER < 0"
    using find_str_too_short[of src_no_markers START_MARKER]
    by (simp add: src_no_markers_def markers_facts)
  have b: "butlast (drop (nat (find_str src_no_end START_MARKER)) src_no_end)
           = START_MARKER @ [NL] @ ''    pass''"
    unfolding find_src_no_end by (simp add: src_no_end_def butlast_append)
  from extract_between_missing_or_misordered[of src_no_markers START_MARKER END_MARKER]
    extract_between_missing_or_misordered[of src_no_end START_MARKER END_MARKER]
    extract_between_missing_or_misordered[of src_end_first START_MARKER END_MARKER]
    a b
  show ?thesis by (simp add: find_src_no_end find_src_end_first)
qed

text \<open>
  Claim C1 as stated fails: for a source text that holds the start marker and lacks the
  end marker, where the specified extraction is an error, the program obtains a non-empty
  body, hands it to the phase executor, and the run returns.
\<close>

theorem extraction_never_fails_counterexample:
  "find_str src_no_end END_MARKER < 0
   \<and> spec_extract src_no_end START_MARKER END_MARKER = Inl ExtractionError
   \<and> scraper_section src_no_end = START_MARKER @ [NL] @ ''    pass''
   \<and> returns (main interp_ok (source_world src_no_end))
   \<and> map_option phase_runs (final_world (main interp_ok (source_world src_no_end)))
       = Some [(''Data Scraping'', START_MARKER @ [NL] @ ''    pass'')]"
proof -
  have "map_of (fs (source_world src_no_end)) ''copy_of_ada.py'' = Some (File src_no_end)"
    "map_of (fs (source_world src_no_end)) ''pipeline_results.json'' \<noteq> Some Dir"
    by (simp_all add: source_world_def)
  from main_interp_ok[OF source_world_free this] obtain w' where
    m: "main interp_ok (source_world src_no_end) = Returns () w'" by blast
  from main_Returns[OF m] obtain rc w1 where s: "startup (source_world src_no_end) = Returns rc w1"
    and r: "phase_runs w' = phase_runs (source_world src_no_end)
              @ [(''Data Scraping'', scraper_section (snd rc))]" by blast
  from startup_Returns(4)[OF s] have "snd rc = src_no_end" by (simp add: source_world_def)
  with r have "phase_runs w' = [(''Data Scraping'', START_MARKER @ [NL] @ ''    pass'')]"
    by (simp add: source_world_def scraper_section_src_no_end)
  with m show ?thesis
    by (simp add: returns_def final_world_def find_src_no_end spec_extract_src_no_end
        scraper_section_src_no_end)
qed

text \<open>
  Claim C2, as the code has it. When the start marker is present and the first occurrence
  of the end marker lies strictly after the first occurrence of the start marker, the body
  is exactly the text from the start of the first occurrence of the start marker to the
  start of the first occurrence of the end marker, and it is the body the specified
  extraction yields.
\<close>

theorem extract_between_ordered:
  assumes "0 \<le> find_str fullText startMarker"
    and "find_str fullText startMarker < find_str fullText endMarker"
  shows "extract_between fullText startMarker endMarker
           = take (nat (find_str fullText endMarker) - nat (find_str fullText startMarker))
               (drop (nat (find_str fullText startMarker)) fullText)
         \<and> occurs_at fullText startMarker (nat (find_str fullText startMarker))
         \<and> (\<forall>j<nat (find_str fullText startMarker). \<not> occurs_at fullText startMarker j)
         \<and> occurs_at fullText endMarker (nat (find_str fullText endMarker))
         \<and> (\<forall>j<nat (find_str fullText endMarker). \<not> occurs_at fullText endMarker j)
         \<and> spec_extract fullText startMarker endMarker
             = Inr (extract_between fullText startMarker endMarker)"
proof -
  from assms have e: "0 \<le> find_str fullText endMarker" by simp
  from slice_ordered[OF assms] find_str_present[OF assms(1)] find_str_present[OF e]
    spec_extract_ordered[OF assms]
  show ?thesis by simp
qed

theorem extract_between_ordered_witness:
  "0 \<le> find_str src_ordered START_MARKER
   \<and> find_str src_ordered START_MARKER < find_str src_ordered END_MARKER
   \<and> extract_between src_ordered START_MARKER END_MARKER
       = START_MARKER @ [NL] @ ''    pass'' @ [NL]
   \<and> spec_extract src_ordered START_MARKER END_MARKER
       = Inr (START_MARKER @ [NL] @ ''    pass'' @ [NL])"
proof -
  have a: "0 \<le> find_str src_ordered START_MARKER" by (simp add: find_src_ordered)
  have b: "find_str src_ordered START_MARKER < find_str src_ordered END_MARKER"
    by (simp add: find_src_ordered)
  have t: "take (53 - 16) (drop 16 src_ordered) = START_MARKER @ [NL] @ ''    pass'' @ [NL]"
    by (simp add: src_ordered_def markers_facts)
  from extract_between_ordered[OF a b] t show ?thesis
    by (simp add: find_src_ordered)
qed

text \<open>
  Claim C2 as stated fails: the end marker is searched from the beginning of the text,
  not from the start marker. In a text where the end marker occurs before the start
  marker and again after it, both markers are present and the end marker occurs after the
  start marker, the specified extraction yields the text between them, and the program
  obtains the empty body.
\<close>

theorem extract_between_first_end_marker_counterexample:
  "occurs_at src_end_first START_MARKER 111
   \<and> occurs_at src_end_first END_MARKER 148
   \<and> spec_extract src_end_first START_MARKER END_MARKER
       = Inr (START_MARKER @ [NL] @ ''    pass'' @ [NL])
   \<and> extract_between src_end_first START_MARKER END_MARKER = []"
proof -
  have p: "0 \<le> find_str src_end_first START_MARKER" by (simp add: find_src_end_first)
  from find_str_present[OF p] have s: "occurs_at src_end_first START_MARKER 111"
    by (simp add: find_src_end_first)
  have "occurs_at ((END_MARKER @ [NL] @ START_MARKER @ [NL] @ ''    pass'' @ [NL])
          @ END_MARKER @ [NL]) END_MARKER
          (length (END_MARKER @ [NL] @ START_MARKER @ [NL] @ ''    pass'' @ [NL]))"
    by (rule occurs_at_append)
  then have e: "occurs_at src_end_first END_MARKER 148"
    by (simp add: src_end_first_def markers_facts)
  from s e spec_extract_src_end_first scraper_section_src_end_first show ?thesis
    by (simp add: scraper_section_def)
qed

section \<open>Properties of the summary\<close>




lemma scraper_section_src_no_markers: "scraper_section src_no_markers = []"
proof -
  have "find_str src_no_markers START_MARKER < 0"
    using find_str_too_short[of src_no_markers START_MARKER]
    by (simp add: src_no_markers_def markers_facts)
  then show ?thesis unfolding scraper_section_def by (rule slice_absent_start)
qed

lemma main_summary:
  assumes "main interp w = Returns u w'"
  shows "\<exists>ok. map_of (fs w') ''pipeline_results.json'' =
           Some (File (json_dump
             \<lparr>timestamp = isoformat (clock w (ticks w)),
              phases = [(''data_scraping'', if ok then ''success'' else ''failed''),
                        (''eda'', if path_exists w' ''data/raw/kepler_cumulative.csv''
                                  then ''skipped - requires manual review''
                                  else ''skipped - no data'')]\<rparr>))
         \<and> map fst (phase_runs w') = map fst (phase_runs w) @ [''Data Scraping'']"
proof -
  from main_Returns[OF assms] obtain rc w1 ok w2 where
    s: "startup w = Returns rc w1"
    and m: "map_of (fs w') = (map_of (fs w2))(''pipeline_results.json'' \<mapsto>
              File (json_dump (final_record (fst rc) ok w2)))"
    and r: "phase_runs w' = phase_runs w @ [(''Data Scraping'', scraper_section (snd rc))]"
    by blast
  from startup_Returns(5)[OF s]
  have rc: "fst rc = \<lparr>timestamp = isoformat (clock w (ticks w)), phases = []\<rparr>" .
  from m have "path_exists w' ''data/raw/kepler_cumulative.csv''
               = path_exists w2 ''data/raw/kepler_cumulative.csv''"
    by (simp add: path_exists_def)
  with m r show ?thesis
    by (intro exI[of _ ok]) (simp add: rc final_record_shape)
qed

text \<open>
  Claim C5. In the summary of a run that returns, the \<^verbatim>\<open>eda\<close> entry is
  \<^verbatim>\<open>skipped - requires manual review\<close> when \<^verbatim>\<open>data/raw/kepler_cumulative.csv\<close> exists
  and \<^verbatim>\<open>skipped - no data\<close> when it does not; the content of the file plays no part. The
  executor has been invoked once, for the first phase, and not for EDA. The gate itself
  enters the label by the presence of the file alone and touches neither the file system
  nor the history of executed phases.
\<close>

theorem eda_entry_by_file_presence:
  assumes "main interp w = Returns u w'"
  shows "(\<exists>ts s. map_of (fs w') ''pipeline_results.json'' =
            Some (File (json_dump
              \<lparr>timestamp = ts,
               phases = [(''data_scraping'', s),
                         (''eda'', if path_exists w' ''data/raw/kepler_cumulative.csv''
                                   then ''skipped - requires manual review''
                                   else ''skipped - no data'')]\<rparr>)))
         \<and> map fst (phase_runs w') = map fst (phase_runs w) @ [''Data Scraping'']
         \<and> phases (fst (eda_gate r v))
             = dict_set ''eda'' (if path_exists v ''data/raw/kepler_cumulative.csv''
                                 then ''skipped - requires manual review''
                                 else ''skipped - no data'') (phases r)
         \<and> fs (snd (eda_gate r v)) = fs v
         \<and> phase_runs (snd (eda_gate r v)) = phase_runs v"
proof -
  from main_summary[OF assms] have
    "\<exists>ts s. map_of (fs w') ''pipeline_results.json'' =
            Some (File (json_dump
              \<lparr>timestamp = ts,
               phases = [(''data_scraping'', s),
                         (''eda'', if path_exists w' ''data/raw/kepler_cumulative.csv''
                                   then ''skipped - requires manual review''
                                   else ''skipped - no data'')]\<rparr>))"
    and "map fst (phase_runs w') = map fst (phase_runs w) @ [''Data Scraping'']"
    by blast+
  then show ?thesis by (simp add: set_phase_def)
qed

theorem eda_entry_by_file_presence_witness:
  "(\<exists>w' ts s. main interp_ok (source_world src_ordered) = Returns () w'
       \<and> map_of (fs w') ''pipeline_results.json'' =
            Some (File (json_dump \<lparr>timestamp = ts,
               phases = [(''data_scraping'', s), (''eda'', ''skipped - no data'')]\<rparr>)))
   \<and> (\<exists>w' ts s. main interp_ok (kepler_world ''not a table'') = Returns () w'
       \<and> map_of (fs w') ''pipeline_results.json'' =
            Some (File (json_dump \<lparr>timestamp = ts,
               phases = [(''data_scraping'', s),
                         (''eda'', ''skipped - requires manual review'')]\<rparr>)))"
proof
  have "map_of (fs (source_world src_ordered)) ''copy_of_ada.py'' = Some (File src_ordered)"
    "map_of (fs (source_world src_ordered)) ''pipeline_results.json'' \<noteq> Some Dir"
    by (simp_all add: source_world_def)
  from main_interp_ok[OF source_world_free this] obtain w' where
    m: "main interp_ok (source_world src_ordered) = Returns () w'"
    and k: "\<forall>q. q \<notin> set setup_paths \<and> q \<noteq> ''pipeline_results.json''
                 \<longrightarrow> map_of (fs w') q = map_of (fs (source_world src_ordered)) q" by blast
  from k kepler_not_setup_path have "\<not> path_exists w' ''data/raw/kepler_cumulative.csv''"
    by (simp add: path_exists_def source_world_def)
  with eda_entry_by_file_presence[OF m] m
  show "\<exists>w' ts s. main interp_ok (source_world src_ordered) = Returns () w'
       \<and> map_of (fs w') ''pipeline_results.json'' =
            Some (File (json_dump \<lparr>timestamp = ts,
               phases = [(''data_scraping'', s), (''eda'', ''skipped - no data'')]\<rparr>))"
    by auto
next
  let ?W = "kepler_world ''not a table''"
  have "\<forall>p\<in>set setup_paths. \<forall>c. map_of (fs ?W) p \<noteq> Some (File c)"
    by (simp add: kepler_world_def setup_paths_eq)
  moreover have "map_of (fs ?W) ''copy_of_ada.py'' = Some (File src_ordered)"
    "map_of (fs ?W) ''pipeline_results.json'' \<noteq> Some Dir"
    by (simp_all add: kepler_world_def)
  ultimately obtain w' where
    m: "main interp_ok ?W = Returns () w'"
    and k: "\<forall>q. q \<notin> set setup_paths \<and> q \<noteq> ''pipeline_results.json''
                 \<longrightarrow> map_of (fs w') q = map_of (fs ?W) q"
    using main_interp_ok[of ?W src_ordered] by blast
  from k kepler_not_setup_path have "path_exists w' ''data/raw/kepler_cumulative.csv''"
    by (simp add: path_exists_def kepler_world_def)
  with eda_entry_by_file_presence[OF m] m
  show "\<exists>w' ts s. main interp_ok ?W = Returns () w'
       \<and> map_of (fs w') ''pipeline_results.json'' =
            Some (File (json_dump \<lparr>timestamp = ts,
               phases = [(''data_scraping'', s),
                         (''eda'', ''skipped - requires manual review'')]\<rparr>))"
    by auto
qed

text \<open>
  Claim C6. When \<^verbatim>\<open>copy_of_ada.py\<close> is not a readable file, the run ends with a
  propagating error, no phase has been handed to the executor, and
  \<^verbatim>\<open>pipeline_results.json\<close> is as it was before the run.
\<close>

theorem no_summary_without_source:
  assumes "\<forall>c. map_of (fs w) ''copy_of_ada.py'' \<noteq> Some (File c)"
  shows "\<exists>e w'. main interp w = Propagates e w'
          \<and> map_of (fs w') ''pipeline_results.json'' = map_of (fs w) ''pipeline_results.json''
          \<and> phase_runs w' = phase_runs w"
proof -
  from startup_without_source[OF assms] obtain e w' where
    s: "startup w = Propagates e w'" by blast
  from startup_Propagates[OF s] summary_not_setup_path
  have "map_of (fs w') ''pipeline_results.json'' = map_of (fs w) ''pipeline_results.json''"
    and "phase_runs w' = phase_runs w" by simp_all
  with s show ?thesis by (simp add: main_def)
qed

theorem no_summary_without_source_witness:
  "(\<forall>c. map_of (fs (world_with [])) ''copy_of_ada.py'' \<noteq> Some (File c))
   \<and> (\<exists>e w'. main interp_ok (world_with []) = Propagates e w'
         \<and> map_of (fs w') ''pipeline_results.json'' = None \<and> phase_runs w' = [])"
proof -
  have a: "\<forall>c. map_of (fs (world_with [])) ''copy_of_ada.py'' \<noteq> Some (File c)" by simp
  from no_summary_without_source[OF a, of interp_ok] a show ?thesis by simp
qed

text \<open>
  Claim C7. The summary of a run that returns holds exactly two entries, in order and
  without duplicates: \<^verbatim>\<open>data_scraping\<close>, which is \<^verbatim>\<open>success\<close> or \<^verbatim>\<open>failed\<close>, and
  \<^verbatim>\<open>eda\<close>, which is one of the two skip labels. The executor has been invoked for the
  attempted phase only.
\<close>

theorem run_record_complete:
  assumes "main interp w = Returns u w'"
  shows "\<exists>r. map_of (fs w') ''pipeline_results.json'' = Some (File (json_dump r))
          \<and> map fst (phases r) = [''data_scraping'', ''eda'']
          \<and> distinct (map fst (phases r))
          \<and> map_of (phases r) ''data_scraping'' \<in> {Some ''success'', Some ''failed''}
          \<and> map_of (phases r) ''eda''
               \<in> {Some ''skipped - no data'', Some ''skipped - requires manual review''}
          \<and> map fst (phase_runs w') = map fst (phase_runs w) @ [''Data Scraping'']"
proof -
  from main_summary[OF assms] obtain ok where
    f: "map_of (fs w') ''pipeline_results.json'' =
           Some (File (json_dump
             \<lparr>timestamp = isoformat (clock w (ticks w)),
              phases = [(''data_scraping'', if ok then ''success'' else ''failed''),
                        (''eda'', if path_exists w' ''data/raw/kepler_cumulative.csv''
                                  then ''skipped - requires manual review''
                                  else ''skipped - no data'')]\<rparr>))"
    and p: "map fst (phase_runs w') = map fst (phase_runs w) @ [''Data Scraping'']"
    by blast
  show ?thesis
    by (rule exI[of _ "\<lparr>timestamp = isoformat (clock w (ticks w)),
              phases = [(''data_scraping'', if ok then ''success'' else ''failed''),
                        (''eda'', if path_exists w' ''data/raw/kepler_cumulative.csv''
                                  then ''skipped - requires manual review''
                                  else ''skipped - no data'')]\<rparr>"])
       (simp add: f p)
qed

theorem run_record_complete_witness:
  "\<exists>w' r. main interp_ok (source_world src_ordered) = Returns () w'
      \<and> map_of (fs w') ''pipeline_results.json'' = Some (File (json_dump r))
      \<and> map fst (phases r) = [''data_scraping'', ''eda'']
      \<and> map fst (phase_runs w') = [''Data Scraping'']"
proof -
  have "map_of (fs (source_world src_ordered)) ''copy_of_ada.py'' = Some (File src_ordered)"
    "map_of (fs (source_world src_ordered)) ''pipeline_results.json'' \<noteq> Some Dir"
    by (simp_all add: source_world_def)
  from main_interp_ok[OF source_world_free this] obtain w' where
    m: "main interp_ok (source_world src_ordered) = Returns () w'" by blast
  from run_record_complete[OF m] m show ?thesis
    by (auto simp: source_world_def)
qed



text \<open>
  Claim C10. When the slicing yields the empty body, \<open>run_phase\<close> returns \<open>True\<close>
  without consulting the interpreter and without touching the file system, and the summary
  records \<^verbatim>\<open>data_scraping\<close> as \<^verbatim>\<open>success\<close>.
\<close>

theorem empty_body_recorded_as_success:
  assumes "startup w = Returns rc w1"
    and "scraper_section (snd rc) = []"
    and "map_of (fs w1) ''pipeline_results.json'' \<noteq> Some Dir"
  shows "\<exists>w2 w' ts s.
           run_phase interp ''Data Scraping'' (scraper_section (snd rc)) w1 = Returns True w2
         \<and> fs w2 = fs w1
         \<and> main interp w = Returns () w'
         \<and> map_of (fs w') ''pipeline_results.json'' =
             Some (File (json_dump \<lparr>timestamp = ts,
                phases = [(''data_scraping'', ''success''), (''eda'', s)]\<rparr>))"
proof -
  define w2 where "w2 = py_print ([NL] @ CHECK_MARK @ '' '' @ ''Data Scraping''
      @ '' completed successfully'') (announce ''Data Scraping'' [] w1)"
  have p: "run_phase interp ''Data Scraping'' (scraper_section (snd rc)) w1 = Returns True w2"
    by (simp add: assms(2) run_phase_empty w2_def)
  have f: "fs w2 = fs w1" by (simp add: w2_def)
  with assms(3) have "map_of (fs w2) ''pipeline_results.json'' \<noteq> Some Dir" by simp
  from main_completes[OF assms(1) p this] obtain w' where
    m: "main interp w = Returns () w'"
    and j: "map_of (fs w') = (map_of (fs w2))(''pipeline_results.json'' \<mapsto>
                File (json_dump (final_record (fst rc) True w2)))" by blast
  from startup_Returns(5)[OF assms(1)] have "phases (fst rc) = []" by simp
  from final_record_shape[OF this, of True w2] j
  have "map_of (fs w') ''pipeline_results.json'' =
             Some (File (json_dump \<lparr>timestamp = timestamp (fst rc),
                phases = [(''data_scraping'', ''success''),
                          (''eda'', if path_exists w2 ''data/raw/kepler_cumulative.csv''
                                    then ''skipped - requires manual review''
                                    else ''skipped - no data'')]\<rparr>))"
    by simp
  with p f m show ?thesis by blast
qed

theorem empty_body_recorded_as_success_witness:
  "\<exists>rc w1 w2 w' ts s.
      startup (source_world src_no_markers) = Returns rc w1
    \<and> scraper_section (snd rc) = []
    \<and> map_of (fs w1) ''pipeline_results.json'' \<noteq> Some Dir
    \<and> run_phase interp_value_error ''Data Scraping'' (scraper_section (snd rc)) w1
        = Returns True w2
    \<and> main interp_value_error (source_world src_no_markers) = Returns () w'
    \<and> map_of (fs w') ''pipeline_results.json'' =
         Some (File (json_dump \<lparr>timestamp = ts,
            phases = [(''data_scraping'', ''success''), (''eda'', s)]\<rparr>))"
proof -
  let ?W = "source_world src_no_markers"
  have "map_of (fs ?W) ''copy_of_ada.py'' = Some (File src_no_markers)"
    by (simp add: source_world_def)
  from startup_succeeds[OF source_world_free this] obtain r w1 where
    s: "startup ?W = Returns (r, src_no_markers) w1" by blast
  have e: "scraper_section (snd (r, src_no_markers)) = []"
    by (simp add: scraper_section_src_no_markers)
  from startup_Returns(2)[OF s summary_not_setup_path]
  have j: "map_of (fs w1) ''pipeline_results.json'' \<noteq> Some Dir"
    by (simp add: source_world_def)
  from empty_body_recorded_as_success[OF s e j, of interp_value_error] s e j
  show ?thesis by blast
qed

text \<open>
  Claim C9. After a successful \<open>setup_environment\<close>, a second one succeeds and leaves
  the file system unchanged; all thirteen directories exist.
\<close>

theorem setup_environment_idempotent:
  assumes "setup_environment w = Returns u w1"
  shows "\<exists>w2. setup_environment w1 = Returns () w2 \<and> fs w2 = fs w1
           \<and> (\<forall>d\<in>set directories. map_of (fs w2) d = Some Dir)"
proof -
  have dirs: "\<forall>p\<in>set setup_paths. p \<noteq> [] \<longrightarrow> map_of (fs w1) p = Some Dir"
    using setup_environment_Returns(6)[OF assms] by blast
  have "setup_environment w1
        = Returns () (py_print (CHECK_MARK @ '' Directory structure created'') w1)"
    by (simp add: setup_environment_ensure_dirs ensure_dirs_idem[OF dirs])
  moreover have "\<forall>d\<in>set directories. map_of (fs w1) d = Some Dir"
    using setup_environment_Returns(6)[OF assms] directories_in_setup_paths by blast
  ultimately show ?thesis by (simp add: py_print_def)
qed

theorem setup_environment_idempotent_witness:
  "\<exists>w1 w2. setup_environment (world_with []) = Returns () w1
      \<and> setup_environment w1 = Returns () w2 \<and> fs w2 = fs w1
      \<and> map_of (fs w2) ''logs'' = Some Dir"
proof -
  have "\<forall>p\<in>set setup_paths. \<forall>c. map_of (fs (world_with [])) p \<noteq> Some (File c)" by simp
  from setup_environment_succeeds[OF this] obtain w1 where
    s: "setup_environment (world_with []) = Returns () w1" by blast
  have "''logs'' \<in> set directories" by (simp add: directories_def)
  with setup_environment_idempotent[OF s] s show ?thesis by blast
qed

end
